theory Spec2Isabelle
  imports
    Main
    "HOL-Library.Word"
    "HOL-Library.AList"
    "HOL-Library.Char_ord"
    "HOL-Library.List_Lexorder"
    "HOL-Library.Product_Lexorder"
begin

section \<open>Constants and values\<close>

text \<open>
  The engine of \<^verbatim>\<open>Database.cpp\<close>: a disk manager, an LRU buffer pool, a B+ tree index
  serialised into pages, fixed-width columns and tables. Counters of type \<^verbatim>\<open>uint64_t\<close> and
  \<^verbatim>\<open>size_t\<close> (page ids, record ids, record counts) are natural numbers here; the one
  product a caller can drive past 64 bits, \<^verbatim>\<open>page_id * PAGE_SIZE\<close> in the disk manager, has
  its wrap-around written out. The layout is the one of the x64 build the README names:
  \<^verbatim>\<open>sizeof(bool) = 1\<close>, \<^verbatim>\<open>sizeof(DataType) = 4\<close>, \<^verbatim>\<open>sizeof(size_t) = 8\<close>, little endian.
\<close>

definition PAGE_SIZE :: nat where
  "PAGE_SIZE = 4096"

definition BUFFER_POOL_SIZE :: nat where
  "BUFFER_POOL_SIZE = 1000"

definition BTREE_ORDER :: nat where
  "BTREE_ORDER = 128"

datatype DataType = INT32 | INT64 | FLOAT | DOUBLE | STRING | BOOL

text \<open>
  \<^verbatim>\<open>std::variant<int32_t, int64_t, float, double, std::string, bool>\<close>. A float or double is
  carried as its IEEE 754 bit pattern, which is what \<^verbatim>\<open>memcpy\<close> moves to and from a page.
\<close>

datatype Value =
    VInt32 "32 word"
  | VInt64 "64 word"
  | VFloat "32 word"
  | VDouble "64 word"
  | VString string
  | VBool bool

type_synonym PageId = nat
type_synonym RecordId = nat
type_synonym byte = "8 word"

datatype error =
    BadVariantAccess
  | PageOverflow
  | OutOfBounds
  | NullDereference
  | RuntimeError string

section \<open>Pages and the disk manager\<close>

record Page =
  page_id :: PageId
  is_dirty :: bool
  data :: "byte list"

definition zero_bytes :: "nat \<Rightarrow> byte list" where
  "zero_bytes n = replicate n 0"

text \<open>
  One \<^verbatim>\<open>std::fstream\<close>. Every access of the program is a block of \<^verbatim>\<open>PAGE_SIZE\<close> bytes at a
  byte offset that is a multiple of \<^verbatim>\<open>PAGE_SIZE\<close>, so the file is the map from such an offset
  to the block stored there; a block beyond the end of the file reads as zeros, as the short
  read of \<^verbatim>\<open>readPage\<close> is zero-filled. \<open>failbit\<close> is the stream's error state, which
  \<^verbatim>\<open>readPage\<close> leaves set after a failed seek. \<^verbatim>\<open>getFileStream\<close> creates a file truncated, with
  one zero byte, at its first use: a file never touched reads as zeros. Opening a file is
  taken to succeed.
\<close>

record file_stream =
  failbit :: bool
  blocks :: "nat \<Rightarrow> byte list"

type_synonym DiskManager = "string \<Rightarrow> file_stream"

definition new_DiskManager :: DiskManager where
  "new_DiskManager = (\<lambda>filename. \<lparr>failbit = False, blocks = (\<lambda>off. zero_bytes PAGE_SIZE)\<rparr>)"

text \<open>\<^verbatim>\<open>page_id * PAGE_SIZE\<close> in 64-bit unsigned arithmetic.\<close>

definition seek_offset :: "PageId \<Rightarrow> nat" where
  "seek_offset pid = (pid * PAGE_SIZE) mod 2 ^ 64"

text \<open>
  The stream position is a signed 64-bit offset: a negative one makes the seek fail. Up to
  which position a seek beyond the end of a file succeeds is the file system's choice. The
  project is a Visual Studio solution for Windows (\<^verbatim>\<open>README.md\<close>); there a seek succeeds at
  every position below \<open>2\<^sup>6\<^sup>3\<close>, and that is what \<open>seek_ok\<close> says. On a file system with a
  smaller limit (ext4 with 4 KiB blocks: \<open>2\<^sup>4\<^sup>4\<close>) the seek fails from that limit on, and what
  is said below of page ids under \<open>2\<^sup>5\<^sup>1\<close> holds of the page ids whose offset is under the
  limit. A failed seek leaves \<open>failbit\<close> set, and \<^verbatim>\<open>readPage\<close> does not clear it.
\<close>

definition seek_ok :: "nat \<Rightarrow> bool" where
  "seek_ok off = (off < 2 ^ 63)"

definition writePage :: "DiskManager \<Rightarrow> string \<Rightarrow> PageId \<Rightarrow> byte list \<Rightarrow> DiskManager" where
  "writePage dm filename pid bytes =
     (let stream = dm filename; off = seek_offset pid
      in if seek_ok off
         then dm(filename := stream\<lparr>failbit := False, blocks := (blocks stream)(off := bytes)\<rparr>)
         else dm(filename := stream\<lparr>failbit := True\<rparr>))"

definition readPage :: "DiskManager \<Rightarrow> string \<Rightarrow> PageId \<Rightarrow> byte list \<times> DiskManager" where
  "readPage dm filename pid =
     (let stream = dm filename; off = seek_offset pid
      in if failbit stream then (zero_bytes PAGE_SIZE, dm)
         else if seek_ok off then (blocks stream off, dm)
         else (zero_bytes PAGE_SIZE, dm(filename := stream\<lparr>failbit := True\<rparr>)))"

section \<open>The buffer pool\<close>

text \<open>
  \<open>pages\<close> is the two-level map of the source, flattened to one association list keyed by
  (file name, page id). \<open>lru_list\<close> has the most recent key first; the iterator map
  \<^verbatim>\<open>lru_map\<close> of the source holds a key exactly when the list does, and is read off the list.
  The disk manager, a reference in the source, is carried in the pool.
\<close>

record BufferPoolManager =
  pool_size :: nat
  pages :: "((string \<times> PageId) \<times> Page) list"
  lru_list :: "(string \<times> PageId) list"
  disk_manager :: DiskManager

definition new_BufferPoolManager :: "DiskManager \<Rightarrow> BufferPoolManager" where
  "new_BufferPoolManager dm =
     \<lparr>pool_size = BUFFER_POOL_SIZE, pages = [], lru_list = [], disk_manager = dm\<rparr>"

definition getTotalPages :: "BufferPoolManager \<Rightarrow> nat" where
  "getTotalPages bpm = length (pages bpm)"

definition updateLRU :: "BufferPoolManager \<Rightarrow> string \<Rightarrow> PageId \<Rightarrow> BufferPoolManager" where
  "updateLRU bpm filename pid =
     (if (filename, pid) \<in> set (lru_list bpm)
      then bpm\<lparr>lru_list := (filename, pid) # remove1 (filename, pid) (lru_list bpm)\<rparr>
      else bpm)"

definition flushPage :: "BufferPoolManager \<Rightarrow> string \<Rightarrow> PageId \<Rightarrow> BufferPoolManager" where
  "flushPage bpm filename pid =
     (case map_of (pages bpm) (filename, pid) of
        None \<Rightarrow> bpm
      | Some page \<Rightarrow>
          if is_dirty page
          then bpm\<lparr>disk_manager := writePage (disk_manager bpm) filename pid (data page),
                   pages := AList.update (filename, pid) (page\<lparr>is_dirty := False\<rparr>) (pages bpm)\<rparr>
          else bpm)"

definition flush_entry :: "(string \<times> PageId) \<times> Page \<Rightarrow> DiskManager \<Rightarrow> DiskManager" where
  "flush_entry e dm =
     (if is_dirty (snd e) then writePage dm (fst (fst e)) (snd (fst e)) (data (snd e)) else dm)"

definition flushAllPages :: "BufferPoolManager \<Rightarrow> BufferPoolManager" where
  "flushAllPages bpm =
     bpm\<lparr>disk_manager := fold flush_entry (pages bpm) (disk_manager bpm),
         pages := map (\<lambda>e. (fst e, (snd e)\<lparr>is_dirty := False\<rparr>)) (pages bpm)\<rparr>"

definition evictPage :: "BufferPoolManager \<Rightarrow> BufferPoolManager" where
  "evictPage bpm =
     (if lru_list bpm = [] then bpm
      else let victim = last (lru_list bpm);
               bpm1 = bpm\<lparr>lru_list := butlast (lru_list bpm)\<rparr>;
               bpm2 = flushPage bpm1 (fst victim) (snd victim)
           in bpm2\<lparr>pages := AList.delete victim (pages bpm2)\<rparr>)"

definition fetchPage :: "BufferPoolManager \<Rightarrow> string \<Rightarrow> PageId \<Rightarrow> Page \<times> BufferPoolManager" where
  "fetchPage bpm filename pid =
     (case map_of (pages bpm) (filename, pid) of
        Some page \<Rightarrow> (page, updateLRU bpm filename pid)
      | None \<Rightarrow>
          let rd = readPage (disk_manager bpm) filename pid;
              page = \<lparr>page_id = pid, is_dirty = False, data = fst rd\<rparr>;
              bpm1 = bpm\<lparr>disk_manager := snd rd\<rparr>;
              bpm2 = (if getTotalPages bpm1 \<ge> pool_size bpm1 then evictPage bpm1 else bpm1)
          in (page, bpm2\<lparr>pages := AList.update (filename, pid) page (pages bpm2),
                         lru_list := (filename, pid) # lru_list bpm2\<rparr>))"

text \<open>
  A client writes through the handle \<^verbatim>\<open>fetchPage\<close> returned, at once after the fetch: the
  page is resident then, and the write is an update of the resident page. A handle whose
  page has left the pool since is a detached copy; writing it changes nothing in the pool.
\<close>

definition modifyPage ::
  "BufferPoolManager \<Rightarrow> string \<Rightarrow> PageId \<Rightarrow> (Page \<Rightarrow> Page) \<Rightarrow> BufferPoolManager" where
  "modifyPage bpm filename pid f =
     (case map_of (pages bpm) (filename, pid) of
        None \<Rightarrow> bpm
      | Some page \<Rightarrow> bpm\<lparr>pages := AList.update (filename, pid) (f page) (pages bpm)\<rparr>)"

text \<open>The operations a client of the pool issues, and a run of them on a fresh pool.\<close>

datatype pool_op =
    Fetch string PageId
  | WriteFetched string PageId "byte list"
  | Flush string PageId
  | FlushAll

fun apply_pool_op :: "pool_op \<Rightarrow> BufferPoolManager \<Rightarrow> BufferPoolManager" where
  "apply_pool_op (Fetch f p) bpm = snd (fetchPage bpm f p)"
| "apply_pool_op (WriteFetched f p bytes) bpm =
     modifyPage (snd (fetchPage bpm f p)) f p (\<lambda>page. page\<lparr>data := bytes, is_dirty := True\<rparr>)"
| "apply_pool_op (Flush f p) bpm = flushPage bpm f p"
| "apply_pool_op FlushAll bpm = flushAllPages bpm"

definition run_pool :: "pool_op list \<Rightarrow> BufferPoolManager" where
  "run_pool ops = fold apply_pool_op ops (new_BufferPoolManager new_DiskManager)"

section \<open>Comparing values\<close>

text \<open>
  \<^verbatim>\<open>operator==\<close> and \<^verbatim>\<open>operator<\<close> of \<^verbatim>\<open>std::variant\<close>: two values holding different
  alternatives are unequal and ordered by the index of the alternative; two values holding
  the same alternative compare as the payloads do. Integers compare signed, strings byte by
  byte, \<open>false < true\<close>. Floats compare by IEEE 754, read off the bit pattern: a NaN is
  neither equal to nor less than anything, and the other patterns are ordered as
  sign-and-magnitude integers, which makes \<open>-0.0\<close> equal to \<open>+0.0\<close>.
\<close>

fun variant_index :: "Value \<Rightarrow> nat" where
  "variant_index (VInt32 _) = 0"
| "variant_index (VInt64 _) = 1"
| "variant_index (VFloat _) = 2"
| "variant_index (VDouble _) = 3"
| "variant_index (VString _) = 4"
| "variant_index (VBool _) = 5"

text \<open>A pattern \<open>w\<close> of \<open>n\<close> bits with \<open>m\<close> mantissa bits.\<close>

definition fp_is_nan :: "nat \<Rightarrow> nat \<Rightarrow> nat \<Rightarrow> bool" where
  "fp_is_nan n m w \<longleftrightarrow> 2 ^ (n - 1) - 2 ^ m < w mod 2 ^ (n - 1)"

definition fp_key :: "nat \<Rightarrow> nat \<Rightarrow> int" where
  "fp_key n w = (if w < 2 ^ (n - 1) then int w else - int (w mod 2 ^ (n - 1)))"

definition fp_eq :: "nat \<Rightarrow> nat \<Rightarrow> nat \<Rightarrow> nat \<Rightarrow> bool" where
  "fp_eq n m a b \<longleftrightarrow> \<not> fp_is_nan n m a \<and> \<not> fp_is_nan n m b \<and> fp_key n a = fp_key n b"

definition fp_less :: "nat \<Rightarrow> nat \<Rightarrow> nat \<Rightarrow> nat \<Rightarrow> bool" where
  "fp_less n m a b \<longleftrightarrow> \<not> fp_is_nan n m a \<and> \<not> fp_is_nan n m b \<and> fp_key n a < fp_key n b"

fun value_eq :: "Value \<Rightarrow> Value \<Rightarrow> bool" where
  "value_eq (VInt32 a) (VInt32 b) = (a = b)"
| "value_eq (VInt64 a) (VInt64 b) = (a = b)"
| "value_eq (VFloat a) (VFloat b) = fp_eq 32 23 (unat a) (unat b)"
| "value_eq (VDouble a) (VDouble b) = fp_eq 64 52 (unat a) (unat b)"
| "value_eq (VString a) (VString b) = (a = b)"
| "value_eq (VBool a) (VBool b) = (a = b)"
| "value_eq _ _ = False"

fun value_less :: "Value \<Rightarrow> Value \<Rightarrow> bool" where
  "value_less (VInt32 a) (VInt32 b) = (sint a < sint b)"
| "value_less (VInt64 a) (VInt64 b) = (sint a < sint b)"
| "value_less (VFloat a) (VFloat b) = fp_less 32 23 (unat a) (unat b)"
| "value_less (VDouble a) (VDouble b) = fp_less 64 52 (unat a) (unat b)"
| "value_less (VString a) (VString b) = (a < b)"
| "value_less (VBool a) (VBool b) = (\<not> a \<and> b)"
| "value_less a b = (variant_index a < variant_index b)"

definition compareValues :: "Value \<Rightarrow> Value \<Rightarrow> int" where
  "compareValues a b = (if value_eq a b then 0 else if value_less a b then - 1 else 1)"

text \<open>
  \<^verbatim>\<open>std::lower_bound\<close> with the comparator \<^verbatim>\<open>compareValues(a, b) < 0\<close>: on a range partitioned
  by the comparator, which is what the library requires, the index of the first element
  that is not less than the key.
\<close>

definition lower_bound :: "Value list \<Rightarrow> Value \<Rightarrow> nat" where
  "lower_bound ks key = length (takeWhile (\<lambda>a. compareValues a key < 0) ks)"

section \<open>Fixed-width encoding\<close>

fun le_bytes :: "nat \<Rightarrow> nat \<Rightarrow> byte list" where
  "le_bytes 0 x = []"
| "le_bytes (Suc n) x = of_nat (x mod 256) # le_bytes n (x div 256)"

fun le_nat :: "byte list \<Rightarrow> nat" where
  "le_nat [] = 0"
| "le_nat (b # bs) = unat b + 256 * le_nat bs"

definition byte_of_char :: "char \<Rightarrow> byte" where
  "byte_of_char c = of_char c"

definition char_of_byte :: "byte \<Rightarrow> char" where
  "char_of_byte b = char_of (unat b)"

fun getRecordSize :: "DataType \<Rightarrow> nat" where
  "getRecordSize INT32 = 4"
| "getRecordSize INT64 = 8"
| "getRecordSize FLOAT = 4"
| "getRecordSize DOUBLE = 8"
| "getRecordSize STRING = 256"
| "getRecordSize BOOL = 1"

text \<open>
  A string is resized to 255 characters (cut, or padded with NUL) and copied with its
  terminating NUL: 256 bytes.
\<close>

definition string_bytes :: "string \<Rightarrow> byte list" where
  "string_bytes s = map byte_of_char (take 255 s) @ zero_bytes (256 - length (take 255 s))"

text \<open>
  The bytes \<^verbatim>\<open>serializeValue\<close> copies for a key; \<^verbatim>\<open>std::get\<close> throws when the value does not
  hold the alternative of the declared type. \<^verbatim>\<open>writeValueToPage\<close> of the column has the same
  switch and copies the same bytes.
\<close>

fun serializeValue :: "Value \<Rightarrow> DataType \<Rightarrow> error + byte list" where
  "serializeValue (VInt32 v) INT32 = Inr (le_bytes 4 (unat v))"
| "serializeValue (VInt64 v) INT64 = Inr (le_bytes 8 (unat v))"
| "serializeValue (VFloat v) FLOAT = Inr (le_bytes 4 (unat v))"
| "serializeValue (VDouble v) DOUBLE = Inr (le_bytes 8 (unat v))"
| "serializeValue (VString s) STRING = Inr (string_bytes s)"
| "serializeValue (VBool b) BOOL = Inr [if b then 1 else 0]"
| "serializeValue _ _ = Inl BadVariantAccess"

text \<open>
  Reading a value of the declared type from the bytes of its slot. A string ends at its
  first NUL; a byte read as \<^verbatim>\<open>bool\<close> is true when it is not zero.
\<close>

fun decode_value :: "DataType \<Rightarrow> byte list \<Rightarrow> Value" where
  "decode_value INT32 bs = VInt32 (of_nat (le_nat (take 4 bs)))"
| "decode_value INT64 bs = VInt64 (of_nat (le_nat (take 8 bs)))"
| "decode_value FLOAT bs = VFloat (of_nat (le_nat (take 4 bs)))"
| "decode_value DOUBLE bs = VDouble (of_nat (le_nat (take 8 bs)))"
| "decode_value STRING bs = VString (map char_of_byte (takeWhile (\<lambda>b. b \<noteq> 0) (take 256 bs)))"
| "decode_value BOOL bs = VBool (le_nat (take 1 bs) \<noteq> 0)"

fun type_code :: "DataType \<Rightarrow> nat" where
  "type_code INT32 = 0"
| "type_code INT64 = 1"
| "type_code FLOAT = 2"
| "type_code DOUBLE = 3"
| "type_code STRING = 4"
| "type_code BOOL = 5"

definition code_type :: "nat \<Rightarrow> DataType option" where
  "code_type c =
     (if c = 0 then Some INT32 else if c = 1 then Some INT64 else if c = 2 then Some FLOAT
      else if c = 3 then Some DOUBLE else if c = 4 then Some STRING
      else if c = 5 then Some BOOL else None)"

text \<open>
  \<^verbatim>\<open>deserializeValue\<close> at an offset of the page, by the type code read from the page. A code
  outside the enumeration falls through the switch: \<^verbatim>\<open>int32_t(0)\<close>, offset unmoved. Reading
  past the end of the buffer is outside the language's defined behaviour: \<open>OutOfBounds\<close>.
\<close>

definition deserializeValue :: "byte list \<Rightarrow> nat \<Rightarrow> nat \<Rightarrow> error + (Value \<times> nat)" where
  "deserializeValue d off code =
     (case code_type code of
        None \<Rightarrow> Inr (VInt32 0, off)
      | Some ty \<Rightarrow>
          if off + getRecordSize ty \<le> length d
          then Inr (decode_value ty (take (getRecordSize ty) (drop off d)), off + getRecordSize ty)
          else Inl OutOfBounds)"

section \<open>B+ tree nodes and their page image\<close>

record BPlusTreeNode =
  is_leaf :: bool
  keys :: "Value list"
  children :: "PageId list"
  records :: "RecordId list"
  next_leaf :: PageId

definition new_BPlusTreeNode :: "bool \<Rightarrow> BPlusTreeNode" where
  "new_BPlusTreeNode leaf =
     \<lparr>is_leaf = leaf, keys = [], children = [], records = [], next_leaf = 0\<rparr>"

text \<open>\<^verbatim>\<open>std::vector::resize\<close>: cut, or pad with the given element.\<close>

definition resize :: "nat \<Rightarrow> 'a \<Rightarrow> 'a list \<Rightarrow> 'a list" where
  "resize n x xs = take n xs @ replicate (n - length xs) x"

text \<open>
  The serialising loops of \<^verbatim>\<open>saveNode\<close>. Each \<^verbatim>\<open>memcpy\<close> appends at the running offset, the
  length of the image so far; one that would end past \<^verbatim>\<open>PAGE_SIZE\<close> writes outside the
  page's buffer, which the source reports only afterwards (\<^verbatim>\<open>Serialized node too large\<close>):
  \<open>PageOverflow\<close>.
\<close>

fun serialize_keys :: "DataType \<Rightarrow> Value list \<Rightarrow> byte list \<Rightarrow> error + byte list" where
  "serialize_keys ty [] img = Inr img"
| "serialize_keys ty (k # ks) img =
     (case serializeValue k ty of
        Inl e \<Rightarrow> Inl e
      | Inr bs \<Rightarrow>
          if length img + length bs > PAGE_SIZE then Inl PageOverflow
          else serialize_keys ty ks (img @ bs))"

fun serialize_u64s :: "nat list \<Rightarrow> byte list \<Rightarrow> error + byte list" where
  "serialize_u64s [] img = Inr img"
| "serialize_u64s (x # xs) img =
     (if length img + 8 > PAGE_SIZE then Inl PageOverflow
      else serialize_u64s xs (img @ le_bytes 8 x))"

definition serializeNode :: "DataType \<Rightarrow> BPlusTreeNode \<Rightarrow> error + byte list" where
  "serializeNode ty node =
     (let header = [if is_leaf node then 1 else 0] @ le_bytes 4 (type_code ty)
                   @ le_bytes 8 (length (keys node))
      in case serialize_keys ty (keys node) header of
           Inl e \<Rightarrow> Inl e
         | Inr img \<Rightarrow>
             (case serialize_u64s
                     (if is_leaf node then records node @ [next_leaf node] else children node) img of
                Inl e \<Rightarrow> Inl e
              | Inr img' \<Rightarrow> Inr (img' @ zero_bytes (PAGE_SIZE - length img'))))"

fun deserialize_keys ::
  "byte list \<Rightarrow> nat \<Rightarrow> nat \<Rightarrow> nat \<Rightarrow> error + (Value list \<times> nat)" where
  "deserialize_keys d off code 0 = Inr ([], off)"
| "deserialize_keys d off code (Suc n) =
     (case deserializeValue d off code of
        Inl e \<Rightarrow> Inl e
      | Inr r \<Rightarrow>
          (case deserialize_keys d (snd r) code n of
             Inl e \<Rightarrow> Inl e
           | Inr rs \<Rightarrow> Inr (fst r # fst rs, snd rs)))"

fun deserialize_u64s :: "byte list \<Rightarrow> nat \<Rightarrow> nat \<Rightarrow> error + (nat list \<times> nat)" where
  "deserialize_u64s d off 0 = Inr ([], off)"
| "deserialize_u64s d off (Suc n) =
     (if off + 8 \<le> length d
      then (case deserialize_u64s d (off + 8) n of
              Inl e \<Rightarrow> Inl e
            | Inr rs \<Rightarrow> Inr (le_nat (take 8 (drop off d)) # fst rs, snd rs))
      else Inl OutOfBounds)"

text \<open>
  The parsing half of \<^verbatim>\<open>getNode\<close>. A page of zeros is a fresh node, which the default
  constructor makes a leaf. A key count above \<open>max_keys\<close> returns the node read so far: the
  leaf flag and nothing else. The two consistency repairs that follow the loops in the
  source are kept, though both vectors have \<open>key_count\<close> entries by construction.
\<close>

definition deserializeNode :: "nat \<Rightarrow> byte list \<Rightarrow> error + BPlusTreeNode" where
  "deserializeNode maxk d =
     (if list_all (\<lambda>b. b = 0) (take PAGE_SIZE d) then Inr (new_BPlusTreeNode True)
      else
        let leaf = (le_nat (take 1 d) \<noteq> 0);
            code = le_nat (take 4 (drop 1 d));
            key_count = le_nat (take 8 (drop 5 d));
            node = (new_BPlusTreeNode True)\<lparr>is_leaf := leaf\<rparr>
        in if key_count > maxk then Inr node
           else
             (case deserialize_keys d 13 code key_count of
                Inl e \<Rightarrow> Inl e
              | Inr ks \<Rightarrow>
                  if leaf
                  then (case deserialize_u64s d (snd ks) (key_count + 1) of
                          Inl e \<Rightarrow> Inl e
                        | Inr rs \<Rightarrow>
                            let recs = take key_count (fst rs);
                                n = min (length (fst ks)) (length recs)
                            in Inr (node\<lparr>keys := take n (fst ks), records := take n recs,
                                         next_leaf := last (fst rs)\<rparr>))
                  else (case deserialize_u64s d (snd ks) (key_count + 1) of
                          Inl e \<Rightarrow> Inl e
                        | Inr cs \<Rightarrow>
                            Inr (node\<lparr>keys := fst ks,
                                      children := resize (length (fst ks) + 1) 0 (fst cs)\<rparr>))))"

section \<open>The B+ tree index\<close>

text \<open>
  What the objects of the program share: the buffer pool, and the counter of page ids, a
  \<^verbatim>\<open>static\<close> local of \<^verbatim>\<open>createNewNode\<close> and so one counter for all indexes of the process.
\<close>

record engine =
  buffer_manager :: BufferPoolManager
  next_page_id :: PageId

definition new_engine :: engine where
  "new_engine =
     \<lparr>buffer_manager = new_BufferPoolManager new_DiskManager, next_page_id = 1\<rparr>"

record BPlusTreeIndex =
  index_name :: string
  root_page_id :: PageId
  key_type :: DataType
  max_keys :: nat

definition new_BPlusTreeIndex :: "string \<Rightarrow> DataType \<Rightarrow> BPlusTreeIndex" where
  "new_BPlusTreeIndex name ty =
     \<lparr>index_name = name, root_page_id = 0, key_type = ty, max_keys = BTREE_ORDER - 1\<rparr>"

text \<open>
  An operation returns \<open>Inr\<close> of its result and the new state, or \<open>Inl\<close> of the exception
  thrown or the undefined behaviour reached. The descents follow page ids read from pages,
  and nothing in the source bounds them: they are partial functions, \<open>None\<close> when the
  descent does not end.
\<close>

definition getNode :: "BPlusTreeIndex \<Rightarrow> PageId \<Rightarrow> engine \<Rightarrow> error + (BPlusTreeNode \<times> engine)" where
  "getNode idx pid st =
     (let fp = fetchPage (buffer_manager st) (index_name idx) pid
      in case deserializeNode (max_keys idx) (data (fst fp)) of
           Inl e \<Rightarrow> Inl e
         | Inr node \<Rightarrow> Inr (node, st\<lparr>buffer_manager := snd fp\<rparr>))"

text \<open>
  \<^verbatim>\<open>saveNode\<close> refuses, with a message only, a leaf whose keys and records differ in number
  and an internal node whose children are not one more than its keys.
\<close>

definition saveNode :: "BPlusTreeIndex \<Rightarrow> PageId \<Rightarrow> BPlusTreeNode \<Rightarrow> engine \<Rightarrow> error + engine" where
  "saveNode idx pid node st =
     (if is_leaf node \<and> length (keys node) \<noteq> length (records node) then Inr st
      else if \<not> is_leaf node \<and> length (children node) \<noteq> length (keys node) + 1 then Inr st
      else
        let fp = fetchPage (buffer_manager st) (index_name idx) pid
        in case serializeNode (key_type idx) node of
             Inl e \<Rightarrow> Inl e
           | Inr img \<Rightarrow>
               Inr (st\<lparr>buffer_manager :=
                          modifyPage (snd fp) (index_name idx) pid
                            (\<lambda>page. page\<lparr>data := img, is_dirty := True\<rparr>)\<rparr>))"

definition createNewNode :: "BPlusTreeIndex \<Rightarrow> bool \<Rightarrow> engine \<Rightarrow> error + (PageId \<times> engine)" where
  "createNewNode idx leaf st =
     (let pid = next_page_id st
      in case saveNode idx pid (new_BPlusTreeNode leaf) (st\<lparr>next_page_id := pid + 1\<rparr>) of
           Inl e \<Rightarrow> Inl e
         | Inr st' \<Rightarrow> Inr (pid, st'))"

definition insert_at :: "nat \<Rightarrow> 'a \<Rightarrow> 'a list \<Rightarrow> 'a list" where
  "insert_at i x xs = take i xs @ x # drop i xs"

definition insertIntoLeaf :: "BPlusTreeNode \<Rightarrow> Value \<Rightarrow> RecordId \<Rightarrow> BPlusTreeNode" where
  "insertIntoLeaf node key rid =
     (let i = lower_bound (keys node) key;
          recs = (if length (records node) \<noteq> length (keys node)
                  then resize (length (keys node)) 0 (records node) else records node)
      in node\<lparr>keys := insert_at i key (keys node), records := insert_at i rid recs\<rparr>)"

definition insertIntoInternal ::
  "BPlusTreeNode \<Rightarrow> Value \<Rightarrow> PageId \<Rightarrow> nat \<Rightarrow> BPlusTreeNode" where
  "insertIntoInternal node key new_child child_index =
     (let ci = (if child_index > length (keys node) then length (keys node) else child_index);
          cs = (if length (children node) \<noteq> length (keys node) + 1
                then resize (length (keys node) + 1) 0 (children node) else children node)
      in node\<lparr>keys := insert_at ci key (keys node), children := insert_at (ci + 1) new_child cs\<rparr>)"

definition findChildIndex :: "BPlusTreeNode \<Rightarrow> Value \<Rightarrow> nat" where
  "findChildIndex node key =
     (let i = lower_bound (keys node) key
      in if \<not> is_leaf node \<and> i \<ge> length (children node)
         then (if length (children node) > 0 then length (children node) - 1 else 0)
         else i)"

text \<open>The bounds check both descents repeat after \<^verbatim>\<open>findChildIndex\<close>.\<close>

definition clamp_child_index :: "BPlusTreeNode \<Rightarrow> nat \<Rightarrow> nat" where
  "clamp_child_index node i =
     (if i \<ge> length (children node)
      then (if length (children node) > 0 then length (children node) - 1 else 0)
      else i)"

definition splitLeaf ::
  "BPlusTreeIndex \<Rightarrow> PageId \<Rightarrow> BPlusTreeNode \<Rightarrow> engine \<Rightarrow> error + ((Value \<times> PageId) \<times> engine)" where
  "splitLeaf idx pid node st =
     (let mid = length (keys node) div 2
      in case createNewNode idx True st of
           Inl e \<Rightarrow> Inl e
         | Inr cr \<Rightarrow>
             (case getNode idx (fst cr) (snd cr) of
                Inl e \<Rightarrow> Inl e
              | Inr gn \<Rightarrow>
                  if length (records node) < mid then Inl OutOfBounds
                  else
                    let new_node = (fst gn)\<lparr>keys := drop mid (keys node),
                                            records := drop mid (records node),
                                            next_leaf := next_leaf node\<rparr>;
                        node' = node\<lparr>keys := take mid (keys node),
                                     records := take mid (records node),
                                     next_leaf := fst cr\<rparr>
                    in case saveNode idx pid node' (snd gn) of
                         Inl e \<Rightarrow> Inl e
                       | Inr st1 \<Rightarrow>
                           (case saveNode idx (fst cr) new_node st1 of
                              Inl e \<Rightarrow> Inl e
                            | Inr st2 \<Rightarrow>
                                (case keys new_node of
                                   [] \<Rightarrow> Inl OutOfBounds
                                 | k # _ \<Rightarrow> Inr ((k, fst cr), st2)))))"

definition splitInternal ::
  "BPlusTreeIndex \<Rightarrow> PageId \<Rightarrow> BPlusTreeNode \<Rightarrow> engine \<Rightarrow> error + ((Value \<times> PageId) \<times> engine)" where
  "splitInternal idx pid node st =
     (let mid = length (keys node) div 2
      in case createNewNode idx False st of
           Inl e \<Rightarrow> Inl e
         | Inr cr \<Rightarrow>
             (case getNode idx (fst cr) (snd cr) of
                Inl e \<Rightarrow> Inl e
              | Inr gn \<Rightarrow>
                  if mid \<ge> length (keys node) \<or> length (children node) < mid + 1
                  then Inl OutOfBounds
                  else
                    let promoted_key = keys node ! mid;
                        new_node = (fst gn)\<lparr>keys := drop (mid + 1) (keys node),
                                            children := drop (mid + 1) (children node)\<rparr>;
                        node' = node\<lparr>keys := take mid (keys node),
                                     children := take (mid + 1) (children node)\<rparr>
                    in case saveNode idx pid node' (snd gn) of
                         Inl e \<Rightarrow> Inl e
                       | Inr st1 \<Rightarrow>
                           (case saveNode idx (fst cr) new_node st1 of
                              Inl e \<Rightarrow> Inl e
                            | Inr st2 \<Rightarrow> Inr ((promoted_key, fst cr), st2))))"

text \<open>The pair \<^verbatim>\<open>{ Value{}, 0 }\<close> returned when nothing was split.\<close>

definition no_split :: "Value \<times> PageId" where
  "no_split = (VInt32 0, 0)"

definition save_unsplit ::
  "BPlusTreeIndex \<Rightarrow> PageId \<Rightarrow> BPlusTreeNode \<Rightarrow> engine \<Rightarrow> error + ((Value \<times> PageId) \<times> engine)" where
  "save_unsplit idx pid node st =
     (case saveNode idx pid node st of Inl e \<Rightarrow> Inl e | Inr st' \<Rightarrow> Inr (no_split, st'))"

partial_function (option) insertInternal ::
  "BPlusTreeIndex \<Rightarrow> PageId \<Rightarrow> Value \<Rightarrow> RecordId \<Rightarrow> engine
   \<Rightarrow> (error + ((Value \<times> PageId) \<times> engine)) option" where
  "insertInternal idx pid key rid st =
     (case getNode idx pid st of
        Inl e \<Rightarrow> Some (Inl e)
      | Inr gn \<Rightarrow>
          if is_leaf (fst gn)
          then (let node = insertIntoLeaf (fst gn) key rid
                in if length (keys node) > max_keys idx
                   then Some (splitLeaf idx pid node (snd gn))
                   else Some (save_unsplit idx pid node (snd gn)))
          else (let ci = clamp_child_index (fst gn) (findChildIndex (fst gn) key)
                in if ci \<ge> length (children (fst gn)) then Some (Inl OutOfBounds)
                   else Option.bind
                          (insertInternal idx (children (fst gn) ! ci) key rid (snd gn))
                          (\<lambda>r. case r of
                                 Inl e \<Rightarrow> Some (Inl e)
                               | Inr res \<Rightarrow>
                                   if snd (fst res) \<noteq> 0
                                   then (let node = insertIntoInternal (fst gn)
                                                      (fst (fst res)) (snd (fst res)) ci
                                         in if length (keys node) > max_keys idx
                                            then Some (splitInternal idx pid node (snd res))
                                            else Some (save_unsplit idx pid node (snd res)))
                                   else Some (save_unsplit idx pid (fst gn) (snd res)))))"

partial_function (option) findLeaf ::
  "BPlusTreeIndex \<Rightarrow> PageId \<Rightarrow> Value \<Rightarrow> engine \<Rightarrow> (error + (PageId \<times> engine)) option" where
  "findLeaf idx pid key st =
     (case getNode idx pid st of
        Inl e \<Rightarrow> Some (Inl e)
      | Inr gn \<Rightarrow>
          if is_leaf (fst gn) then Some (Inr (pid, snd gn))
          else (let ci = clamp_child_index (fst gn) (findChildIndex (fst gn) key)
                in if ci \<ge> length (children (fst gn)) then Some (Inl OutOfBounds)
                   else findLeaf idx (children (fst gn) ! ci) key (snd gn)))"

text \<open>
  \<^verbatim>\<open>BPlusTreeIndex::insert\<close>. When the root was split it asks \<^verbatim>\<open>createNewNode(false)\<close> for the page of a new
  root, takes the node \<^verbatim>\<open>getNode\<close> returns for that page, appends the promoted key and the two
  children to it, and hands it to \<^verbatim>\<open>saveNode\<close>.
\<close>

definition insert_new_root ::
  "BPlusTreeIndex \<Rightarrow> Value \<times> PageId \<Rightarrow> engine \<Rightarrow> error + (BPlusTreeIndex \<times> engine)" where
  "insert_new_root idx res st =
     (case createNewNode idx False st of
        Inl e \<Rightarrow> Inl e
      | Inr cr \<Rightarrow>
          (case getNode idx (fst cr) (snd cr) of
             Inl e \<Rightarrow> Inl e
           | Inr gn \<Rightarrow>
               let root_node = (fst gn)\<lparr>keys := keys (fst gn) @ [fst res],
                                        children := children (fst gn) @ [root_page_id idx, snd res]\<rparr>;
                   idx' = idx\<lparr>root_page_id := fst cr\<rparr>
               in (case saveNode idx' (fst cr) root_node (snd gn) of
                     Inl e \<Rightarrow> Inl e
                   | Inr st' \<Rightarrow> Inr (idx', st'))))"

definition ensure_root :: "BPlusTreeIndex \<Rightarrow> engine \<Rightarrow> error + (BPlusTreeIndex \<times> engine)" where
  "ensure_root idx st =
     (if root_page_id idx = 0
      then (case createNewNode idx True st of
              Inl e \<Rightarrow> Inl e
            | Inr cr \<Rightarrow> Inr (idx\<lparr>root_page_id := fst cr\<rparr>, snd cr))
      else Inr (idx, st))"

definition insert_idx ::
  "BPlusTreeIndex \<Rightarrow> Value \<Rightarrow> RecordId \<Rightarrow> engine \<Rightarrow> (error + (BPlusTreeIndex \<times> engine)) option" where
  "insert_idx idx key rid st =
     (case ensure_root idx st of
        Inl e \<Rightarrow> Some (Inl e)
      | Inr er \<Rightarrow>
          Option.bind (insertInternal (fst er) (root_page_id (fst er)) key rid (snd er))
            (\<lambda>r. case r of
                   Inl e \<Rightarrow> Some (Inl e)
                 | Inr res \<Rightarrow>
                     if snd (fst res) \<noteq> 0
                     then Some (insert_new_root (fst er) (fst res) (snd res))
                     else Some (Inr (fst er, snd res))))"

text \<open>
  The linear scan of \<^verbatim>\<open>search\<close> over the keys of one leaf, with the records from the same
  index on. \<^verbatim>\<open>records[i]\<close> is read for a matching key only; where the records have run out,
  the access is out of range.
\<close>

fun matching_records :: "Value \<Rightarrow> Value list \<Rightarrow> RecordId list \<Rightarrow> error + RecordId list" where
  "matching_records key [] rs = Inr []"
| "matching_records key (k # ks) rs =
     (if value_eq k key
      then (case rs of
              [] \<Rightarrow> Inl OutOfBounds
            | r # rs' \<Rightarrow>
                (case matching_records key ks rs' of
                   Inl e \<Rightarrow> Inl e
                 | Inr found \<Rightarrow> Inr (r # found)))
      else matching_records key ks (tl rs))"

definition search ::
  "BPlusTreeIndex \<Rightarrow> Value \<Rightarrow> engine \<Rightarrow> (error + (RecordId list \<times> engine)) option" where
  "search idx key st =
     (if root_page_id idx = 0 then Some (Inr ([], st))
      else Option.bind (findLeaf idx (root_page_id idx) key st)
             (\<lambda>r. case r of
                    Inl e \<Rightarrow> Some (Inl e)
                  | Inr fl \<Rightarrow>
                      (case getNode idx (fst fl) (snd fl) of
                         Inl e \<Rightarrow> Some (Inl e)
                       | Inr gn \<Rightarrow>
                           (case matching_records key (keys (fst gn)) (records (fst gn)) of
                              Inl e \<Rightarrow> Some (Inl e)
                            | Inr rs \<Rightarrow> Some (Inr (rs, snd gn))))))"

text \<open>
  The inner loop of \<^verbatim>\<open>rangeSearch\<close> over the keys of one leaf, with the records from the
  same index on and the results so far: the flag is set when a key above the end of the
  range made the search return.
\<close>

fun scan_leaf ::
  "Value \<Rightarrow> Value \<Rightarrow> Value list \<Rightarrow> RecordId list \<Rightarrow> RecordId list
   \<Rightarrow> error + (RecordId list \<times> bool)" where
  "scan_leaf start_key end_key [] rs results = Inr (results, False)"
| "scan_leaf start_key end_key (k # ks) rs results =
     (case (if compareValues k start_key \<ge> 0 \<and> compareValues k end_key \<le> 0
            then (case rs of [] \<Rightarrow> Inl OutOfBounds | r # _ \<Rightarrow> Inr (results @ [r]))
            else Inr results) of
        Inl e \<Rightarrow> Inl e
      | Inr results' \<Rightarrow>
          if compareValues k end_key > 0 then Inr (results', True)
          else scan_leaf start_key end_key ks (tl rs) results')"

partial_function (option) range_walk ::
  "BPlusTreeIndex \<Rightarrow> Value \<Rightarrow> Value \<Rightarrow> PageId \<Rightarrow> RecordId list \<Rightarrow> engine
   \<Rightarrow> (error + (RecordId list \<times> engine)) option" where
  "range_walk idx start_key end_key leaf_page results st =
     (if leaf_page = 0 then Some (Inr (results, st))
      else
        (case getNode idx leaf_page st of
           Inl e \<Rightarrow> Some (Inl e)
         | Inr gn \<Rightarrow>
             (case scan_leaf start_key end_key (keys (fst gn)) (records (fst gn)) results of
                Inl e \<Rightarrow> Some (Inl e)
              | Inr sc \<Rightarrow>
                  if snd sc then Some (Inr (fst sc, snd gn))
                  else range_walk idx start_key end_key (next_leaf (fst gn)) (fst sc) (snd gn))))"

definition rangeSearch ::
  "BPlusTreeIndex \<Rightarrow> Value \<Rightarrow> Value \<Rightarrow> engine \<Rightarrow> (error + (RecordId list \<times> engine)) option" where
  "rangeSearch idx start_key end_key st =
     (if root_page_id idx = 0 then Some (Inr ([], st))
      else Option.bind (findLeaf idx (root_page_id idx) start_key st)
             (\<lambda>r. case r of
                    Inl e \<Rightarrow> Some (Inl e)
                  | Inr fl \<Rightarrow> range_walk idx start_key end_key (fst fl) [] (snd fl)))"

section \<open>Columns\<close>

text \<open>
  \<^verbatim>\<open>DiskBasedColumn\<close>. The fields \<^verbatim>\<open>name_\<close>, \<^verbatim>\<open>type_\<close>, \<^verbatim>\<open>index_\<close> and \<^verbatim>\<open>total_records_\<close> are
  \<open>column_name\<close>, \<open>column_type\<close>, \<open>column_index\<close> and \<open>total_records\<close>;
  \<^verbatim>\<open>records_per_page_\<close>, which the constructor computes from the type and nothing changes,
  is computed where it is used. The operations named \<^verbatim>\<open>append\<close>, \<^verbatim>\<open>get\<close>, \<^verbatim>\<open>sum\<close> and
  \<^verbatim>\<open>average\<close> in the source carry the suffix \<open>_col\<close>.
\<close>

record DiskBasedColumn =
  column_name :: string
  column_type :: DataType
  data_file :: string
  column_index :: BPlusTreeIndex
  total_records :: nat

definition new_DiskBasedColumn :: "string \<Rightarrow> DataType \<Rightarrow> DiskBasedColumn" where
  "new_DiskBasedColumn name ty =
     \<lparr>column_name = name, column_type = ty, data_file = name @ ''.data'',
      column_index = new_BPlusTreeIndex (name @ ''.idx'') ty, total_records = 0\<rparr>"

definition records_per_page :: "DiskBasedColumn \<Rightarrow> nat" where
  "records_per_page col = PAGE_SIZE div getRecordSize (column_type col)"

definition write_bytes :: "byte list \<Rightarrow> nat \<Rightarrow> byte list \<Rightarrow> byte list" where
  "write_bytes d off bs = take off d @ bs @ drop (off + length bs) d"

definition writeValueToPage :: "DataType \<Rightarrow> byte list \<Rightarrow> nat \<Rightarrow> Value \<Rightarrow> error + byte list" where
  "writeValueToPage ty d offset v =
     (case serializeValue v ty of
        Inl e \<Rightarrow> Inl e
      | Inr bs \<Rightarrow> Inr (write_bytes d (offset * getRecordSize ty) bs))"

definition readValueFromPage :: "DataType \<Rightarrow> byte list \<Rightarrow> nat \<Rightarrow> Value" where
  "readValueFromPage ty d offset =
     decode_value ty (take (getRecordSize ty) (drop (offset * getRecordSize ty) d))"

text \<open>The flush \<^verbatim>\<open>append\<close> forces inside its debug output, for the first record and every 10000th.\<close>

definition append_flush :: "DiskBasedColumn \<Rightarrow> PageId \<Rightarrow> BufferPoolManager \<Rightarrow> BufferPoolManager" where
  "append_flush col pid bpm =
     (if (total_records col < 5 \<or> total_records col mod 10000 = 0) \<and> total_records col mod 1000 = 0
      then flushPage bpm (data_file col) pid else bpm)"

text \<open>
  What a failed operation leaves behind: the exception and the state at the throw, which the
  caller that catches it goes on with; or, with no state, undefined behaviour (a copy beyond
  the page, an index beyond a vector, a null pointer), after which nothing is said.
\<close>

type_synonym 'a thrown = "error \<times> 'a option"

text \<open>
  \<^verbatim>\<open>append\<close>. \<^verbatim>\<open>writeValueToPage\<close> throws before it copies a byte: the page was fetched and is
  untouched, the index and the record count are as they were. An error out of the index is
  undefined behaviour, or, in an index whose key type is not the column's, which the
  constructor never makes, an exception halfway through a page: the state is not followed.
\<close>

definition append_col ::
  "DiskBasedColumn \<Rightarrow> Value \<Rightarrow> engine
   \<Rightarrow> (engine thrown + ((RecordId \<times> DiskBasedColumn) \<times> engine)) option" where
  "append_col col v st =
     (let record_id = total_records col;
          pid = record_id div records_per_page col;
          offset = record_id mod records_per_page col;
          fp = fetchPage (buffer_manager st) (data_file col) pid
      in case writeValueToPage (column_type col) (data (fst fp)) offset v of
           Inl e \<Rightarrow> Some (Inl (e, Some (st\<lparr>buffer_manager := snd fp\<rparr>)))
         | Inr d \<Rightarrow>
             Option.bind
               (insert_idx (column_index col) v record_id
                  (st\<lparr>buffer_manager :=
                        modifyPage (snd fp) (data_file col) pid
                          (\<lambda>page. page\<lparr>data := d, is_dirty := True\<rparr>)\<rparr>))
               (\<lambda>r. case r of
                      Inl e \<Rightarrow> Some (Inl (e, None))
                    | Inr ins \<Rightarrow>
                        Some (Inr ((record_id,
                                    col\<lparr>column_index := fst ins, total_records := record_id + 1\<rparr>),
                                   (snd ins)\<lparr>buffer_manager :=
                                               append_flush col pid (buffer_manager (snd ins))\<rparr>))))"

definition get_col :: "DiskBasedColumn \<Rightarrow> RecordId \<Rightarrow> engine \<Rightarrow> Value \<times> engine" where
  "get_col col record_id st =
     (let pid = record_id div records_per_page col;
          offset = record_id mod records_per_page col;
          fp = fetchPage (buffer_manager st) (data_file col) pid
      in (readValueFromPage (column_type col) (data (fst fp)) offset,
          st\<lparr>buffer_manager := snd fp\<rparr>))"

definition findRecords ::
  "DiskBasedColumn \<Rightarrow> Value \<Rightarrow> engine \<Rightarrow> (error + (RecordId list \<times> engine)) option" where
  "findRecords col v st = search (column_index col) v st"

definition findRecordsInRange ::
  "DiskBasedColumn \<Rightarrow> Value \<Rightarrow> Value \<Rightarrow> engine \<Rightarrow> (error + (RecordId list \<times> engine)) option" where
  "findRecordsInRange col start_v end_v st = rangeSearch (column_index col) start_v end_v st"

text \<open>
  The arithmetic of \<^verbatim>\<open>double\<close> is not part of the program: addition, division and the
  conversions \<^verbatim>\<open>sum\<close> and \<^verbatim>\<open>average\<close> use are parameters, on bit patterns. \<open>0.0\<close> is the
  pattern of zeros.
\<close>

record fp_ops =
  d_add :: "64 word \<Rightarrow> 64 word \<Rightarrow> 64 word"
  d_div :: "64 word \<Rightarrow> 64 word \<Rightarrow> 64 word"
  d_of_int32 :: "32 word \<Rightarrow> 64 word"
  d_of_int64 :: "64 word \<Rightarrow> 64 word"
  d_of_float :: "32 word \<Rightarrow> 64 word"
  d_of_size :: "nat \<Rightarrow> 64 word"

fun getNumericValue :: "fp_ops \<Rightarrow> DataType \<Rightarrow> Value \<Rightarrow> error + 64 word" where
  "getNumericValue fp INT32 (VInt32 v) = Inr (d_of_int32 fp v)"
| "getNumericValue fp INT64 (VInt64 v) = Inr (d_of_int64 fp v)"
| "getNumericValue fp FLOAT (VFloat v) = Inr (d_of_float fp v)"
| "getNumericValue fp DOUBLE (VDouble v) = Inr v"
| "getNumericValue fp STRING _ = Inr 0"
| "getNumericValue fp BOOL _ = Inr 0"
| "getNumericValue fp _ _ = Inl BadVariantAccess"

text \<open>The inner loop of \<^verbatim>\<open>sum\<close>: the slots of one page, added to the result so far.\<close>

fun sum_slots :: "fp_ops \<Rightarrow> DataType \<Rightarrow> byte list \<Rightarrow> nat list \<Rightarrow> 64 word \<Rightarrow> error + 64 word" where
  "sum_slots fp ty d [] result = Inr result"
| "sum_slots fp ty d (i # is) result =
     (case getNumericValue fp ty (readValueFromPage ty d i) of
        Inl e \<Rightarrow> Inl e
      | Inr x \<Rightarrow> sum_slots fp ty d is (d_add fp result x))"

function sum_pages ::
  "fp_ops \<Rightarrow> DiskBasedColumn \<Rightarrow> PageId \<Rightarrow> 64 word \<Rightarrow> engine \<Rightarrow> error + (64 word \<times> engine)" where
  "sum_pages fp col pid result st =
     (if pid * records_per_page col < total_records col
      then
        let page = fetchPage (buffer_manager st) (data_file col) pid;
            start_record = pid * records_per_page col;
            end_record = min (start_record + records_per_page col) (total_records col)
        in case sum_slots fp (column_type col) (data (fst page))
                  (map (\<lambda>i. i - start_record) [start_record ..< end_record]) result of
             Inl e \<Rightarrow> Inl e
           | Inr result' \<Rightarrow>
               sum_pages fp col (pid + 1) result' (st\<lparr>buffer_manager := snd page\<rparr>)
      else Inr (result, st))"
  by pat_completeness auto

lemma records_per_page_pos: "0 < records_per_page col"
  by (cases "column_type col") (simp_all add: records_per_page_def PAGE_SIZE_def)

termination sum_pages
proof (relation "measure (\<lambda>(fp, col, pid, result, st). total_records col - pid * records_per_page col)")
  show "wf (measure (\<lambda>(fp, col, pid, result, st). total_records col - pid * records_per_page col))"
    by simp
next
  fix fp :: fp_ops and col :: DiskBasedColumn and pid :: PageId and result :: "64 word"
    and st :: engine and page start_record end_record x2
  assume "pid * records_per_page col < total_records col"
  moreover have "0 < records_per_page col"
    by (rule records_per_page_pos)
  ultimately show "((fp, col, pid + 1, x2, st\<lparr>buffer_manager := snd page\<rparr>), fp, col, pid, result, st)
      \<in> measure (\<lambda>(fp, col, pid, result, st). total_records col - pid * records_per_page col)"
    by simp
qed

definition sum_col :: "fp_ops \<Rightarrow> DiskBasedColumn \<Rightarrow> engine \<Rightarrow> error + (64 word \<times> engine)" where
  "sum_col fp col st = sum_pages fp col 0 0 st"

definition average_col :: "fp_ops \<Rightarrow> DiskBasedColumn \<Rightarrow> engine \<Rightarrow> error + (64 word \<times> engine)" where
  "average_col fp col st =
     (if total_records col = 0 then Inr (0, st)
      else (case sum_col fp col st of
              Inl e \<Rightarrow> Inl e
            | Inr s \<Rightarrow> Inr (d_div fp (fst s) (d_of_size fp (total_records col)), snd s)))"

section \<open>Tables\<close>

record DiskBasedTable =
  table_name :: string
  table_path :: string
  columns :: "string \<rightharpoonup> DiskBasedColumn"
  column_order :: "string list"
  row_count :: nat

definition new_DiskBasedTable :: "string \<Rightarrow> DiskBasedTable" where
  "new_DiskBasedTable name =
     \<lparr>table_name = name, table_path = name, columns = Map.empty, column_order = [],
      row_count = 0\<rparr>"

fun default_value :: "DataType \<Rightarrow> Value" where
  "default_value INT32 = VInt32 0"
| "default_value INT64 = VInt64 0"
| "default_value FLOAT = VFloat 0"
| "default_value DOUBLE = VDouble 0"
| "default_value STRING = VString []"
| "default_value BOOL = VBool False"






definition getColumn :: "DiskBasedTable \<Rightarrow> string \<Rightarrow> DiskBasedColumn option" where
  "getColumn t name = columns t name"

text \<open>One result row: the value at the record id of each selected column that exists.\<close>

fun build_row ::
  "DiskBasedTable \<Rightarrow> RecordId \<Rightarrow> string list \<Rightarrow> (string \<rightharpoonup> Value) \<Rightarrow> engine
   \<Rightarrow> (string \<rightharpoonup> Value) \<times> engine" where
  "build_row t record_id [] row st = (row, st)"
| "build_row t record_id (col_name # rest) row st =
     (case getColumn t col_name of
        None \<Rightarrow> build_row t record_id rest row st
      | Some col \<Rightarrow>
          (let g = get_col col record_id st
           in build_row t record_id rest (row(col_name \<mapsto> fst g)) (snd g)))"

fun build_rows ::
  "DiskBasedTable \<Rightarrow> string list \<Rightarrow> RecordId list \<Rightarrow> engine \<Rightarrow> (string \<rightharpoonup> Value) list \<times> engine" where
  "build_rows t cols [] st = ([], st)"
| "build_rows t cols (record_id # rest) st =
     (let r = build_row t record_id cols Map.empty st;
          rs = build_rows t cols rest (snd r)
      in (fst r # fst rs, snd rs))"

definition select_rows ::
  "DiskBasedTable \<Rightarrow> string list \<Rightarrow> (error + (RecordId list \<times> engine)) option
   \<Rightarrow> (error + ((string \<rightharpoonup> Value) list \<times> engine)) option" where
  "select_rows t selected_columns found =
     Option.bind found
       (\<lambda>r. case r of
              Inl e \<Rightarrow> Some (Inl e)
            | Inr f \<Rightarrow>
                Some (Inr (build_rows t
                             (if selected_columns = [] then column_order t else selected_columns)
                             (fst f) (snd f))))"

definition indexedSelect ::
  "DiskBasedTable \<Rightarrow> string \<Rightarrow> Value \<Rightarrow> string list \<Rightarrow> engine
   \<Rightarrow> (error + ((string \<rightharpoonup> Value) list \<times> engine)) option" where
  "indexedSelect t index_column v selected_columns st =
     (case getColumn t index_column of
        None \<Rightarrow> Some (Inr ([], st))
      | Some column \<Rightarrow> select_rows t selected_columns (findRecords column v st))"

definition rangeSelect ::
  "DiskBasedTable \<Rightarrow> string \<Rightarrow> Value \<Rightarrow> Value \<Rightarrow> string list \<Rightarrow> engine
   \<Rightarrow> (error + ((string \<rightharpoonup> Value) list \<times> engine)) option" where
  "rangeSelect t index_column start_value end_value selected_columns st =
     (case getColumn t index_column of
        None \<Rightarrow> Some (Inr ([], st))
      | Some column \<Rightarrow>
          select_rows t selected_columns (findRecordsInRange column start_value end_value st))"

section \<open>Buffer pool: residency and dirty flags\<close>

text \<open>
  The residency map and the LRU list hold the same keys, each once, and the bound of the
  pool is positive and respected.
\<close>

definition pool_wf :: "BufferPoolManager \<Rightarrow> bool" where
  "pool_wf bpm \<longleftrightarrow>
     distinct (map fst (pages bpm)) \<and> distinct (lru_list bpm) \<and>
     set (lru_list bpm) = set (map fst (pages bpm)) \<and>
     0 < pool_size bpm \<and> length (pages bpm) \<le> pool_size bpm"

lemma keys_update_mem:
  "k \<in> fst ` set al \<Longrightarrow> map fst (AList.update k v al) = map fst al"
  by (simp add: update_keys)

lemma keys_update_new:
  "k \<notin> fst ` set al \<Longrightarrow> map fst (AList.update k v al) = map fst al @ [k]"
  by (simp add: update_keys)

lemma length_update_mem:
  "k \<in> fst ` set al \<Longrightarrow> length (AList.update k v al) = length al"
  by (metis keys_update_mem length_map)

lemma length_update_new:
  "k \<notin> fst ` set al \<Longrightarrow> length (AList.update k v al) = Suc (length al)"
  by (metis keys_update_new length_map length_append_singleton)

lemma length_delete_mem:
  assumes "distinct (map fst al)" and "k \<in> fst ` set al"
  shows "Suc (length (AList.delete k al)) = length al"
proof -
  have "length (AList.delete k al) = length (removeAll k (map fst al))"
    by (metis delete_keys length_map)
  also have "removeAll k (map fst al) = remove1 k (map fst al)"
    using assms(1) by (simp add: distinct_remove1_removeAll)
  also have "length (remove1 k (map fst al)) = length al - 1"
    using assms(2) by (simp add: length_remove1)
  finally show ?thesis
    using assms(2) by (cases al) auto
qed

lemma map_of_dom_fst: "map_of al k = Some v \<Longrightarrow> k \<in> fst ` set al"
  by (metis map_of_eq_None_iff option.distinct(1))

lemma map_of_None_fst: "map_of al k = None \<Longrightarrow> k \<notin> fst ` set al"
  by (simp add: map_of_eq_None_iff)

lemma pool_wf_new: "pool_wf (new_BufferPoolManager dm)"
  by (simp add: pool_wf_def new_BufferPoolManager_def BUFFER_POOL_SIZE_def)

lemma pool_wf_updateLRU: "pool_wf bpm \<Longrightarrow> pool_wf (updateLRU bpm f p)"
  by (auto simp: pool_wf_def updateLRU_def)

lemma keys_flushPage: "map fst (pages (flushPage bpm f p)) = map fst (pages bpm)"
  by (auto simp: flushPage_def keys_update_mem [OF map_of_dom_fst] split: option.splits)

lemma lru_flushPage: "lru_list (flushPage bpm f p) = lru_list bpm"
  by (simp add: flushPage_def split: option.splits)

lemma pool_size_flushPage: "pool_size (flushPage bpm f p) = pool_size bpm"
  by (simp add: flushPage_def split: option.splits)

lemma pool_wf_flushPage: "pool_wf bpm \<Longrightarrow> pool_wf (flushPage bpm f p)"
  unfolding pool_wf_def
  by (metis keys_flushPage lru_flushPage pool_size_flushPage length_map)

lemma pool_wf_flushAllPages: "pool_wf bpm \<Longrightarrow> pool_wf (flushAllPages bpm)"
  by (simp add: pool_wf_def flushAllPages_def comp_def)

lemma keys_modifyPage: "map fst (pages (modifyPage bpm f p g)) = map fst (pages bpm)"
  by (auto simp: modifyPage_def keys_update_mem [OF map_of_dom_fst] split: option.splits)

lemma lru_modifyPage: "lru_list (modifyPage bpm f p g) = lru_list bpm"
  by (simp add: modifyPage_def split: option.splits)

lemma pool_size_modifyPage: "pool_size (modifyPage bpm f p g) = pool_size bpm"
  by (simp add: modifyPage_def split: option.splits)

lemma pool_wf_modifyPage: "pool_wf bpm \<Longrightarrow> pool_wf (modifyPage bpm f p g)"
  unfolding pool_wf_def
  by (metis keys_modifyPage lru_modifyPage pool_size_modifyPage length_map)

text \<open>Evicting from a non-empty well-formed pool removes exactly one resident page.\<close>

lemma evictPage_shrinks:
  assumes "pool_wf bpm" and "pages bpm \<noteq> []"
  shows "distinct (map fst (pages (evictPage bpm)))"
    and "distinct (lru_list (evictPage bpm))"
    and "set (lru_list (evictPage bpm)) = set (map fst (pages (evictPage bpm)))"
    and "pool_size (evictPage bpm) = pool_size bpm"
    and "Suc (length (pages (evictPage bpm))) = length (pages bpm)"
proof -
  from assms have ne: "lru_list bpm \<noteq> []"
    by (auto simp: pool_wf_def)
  define victim where "victim = last (lru_list bpm)"
  define bpm2 where
    "bpm2 = flushPage (bpm\<lparr>lru_list := butlast (lru_list bpm)\<rparr>) (fst victim) (snd victim)"
  have ev: "evictPage bpm = bpm2\<lparr>pages := AList.delete victim (pages bpm2)\<rparr>"
    using ne by (simp add: evictPage_def Let_def victim_def bpm2_def)
  have keys2: "map fst (pages bpm2) = map fst (pages bpm)"
    by (simp add: bpm2_def keys_flushPage)
  have lru2: "lru_list bpm2 = butlast (lru_list bpm)"
    by (simp add: bpm2_def lru_flushPage)
  have vin: "victim \<in> set (lru_list bpm)"
    using ne by (simp add: victim_def)
  have split: "lru_list bpm = butlast (lru_list bpm) @ [victim]"
    using ne by (simp add: victim_def)
  from assms(1) have d: "distinct (lru_list bpm)"
    and dk: "distinct (map fst (pages bpm))"
    and eq: "set (lru_list bpm) = set (map fst (pages bpm))"
    by (auto simp: pool_wf_def)
  from d split have vnotin: "victim \<notin> set (butlast (lru_list bpm))"
    by (metis distinct_append disjoint_iff list.set_intros(1))
  from split have setsplit: "set (lru_list bpm) = insert victim (set (butlast (lru_list bpm)))"
    by (metis Un_insert_right list.simps(15) set_append sup_bot.right_neutral empty_set)
  show "distinct (map fst (pages (evictPage bpm)))"
    using dk keys2 by (simp add: ev distinct_delete)
  show "distinct (lru_list (evictPage bpm))"
    using d by (simp add: ev lru2 distinct_butlast)
  have "set (map fst (AList.delete victim (pages bpm2))) = set (map fst (pages bpm2)) - {victim}"
    by (simp add: delete_keys)
  also have "\<dots> = set (lru_list bpm) - {victim}"
    using keys2 eq by simp
  also have "\<dots> = set (butlast (lru_list bpm))"
    using setsplit vnotin by auto
  finally show "set (lru_list (evictPage bpm)) = set (map fst (pages (evictPage bpm)))"
    by (simp add: ev lru2)
  show "pool_size (evictPage bpm) = pool_size bpm"
    by (simp add: ev bpm2_def pool_size_flushPage)
  have "victim \<in> set (map fst (pages bpm2))"
    using vin eq keys2 by simp
  moreover have "distinct (map fst (pages bpm2))"
    using dk keys2 by simp
  ultimately have "Suc (length (AList.delete victim (pages bpm2))) = length (pages bpm2)"
    by (simp add: length_delete_mem)
  moreover have "length (pages bpm2) = length (pages bpm)"
    using keys2 by (metis length_map)
  ultimately show "Suc (length (pages (evictPage bpm))) = length (pages bpm)"
    by (simp add: ev)
qed

lemma keys_evictPage_subset:
  "fst ` set (pages (evictPage bpm)) \<subseteq> fst ` set (pages bpm)"
proof (cases "lru_list bpm = []")
  case True
  then show ?thesis by (simp add: evictPage_def)
next
  case False
  define victim where "victim = last (lru_list bpm)"
  define bpm2 where
    "bpm2 = flushPage (bpm\<lparr>lru_list := butlast (lru_list bpm)\<rparr>) (fst victim) (snd victim)"
  have ev: "evictPage bpm = bpm2\<lparr>pages := AList.delete victim (pages bpm2)\<rparr>"
    using False by (simp add: evictPage_def Let_def victim_def bpm2_def)
  have "map fst (pages bpm2) = map fst (pages bpm)"
    by (simp add: bpm2_def keys_flushPage)
  then have "fst ` set (pages bpm2) = fst ` set (pages bpm)"
    by (metis set_map)
  then show ?thesis
    using dom_delete_subset [of victim "pages bpm2"] by (simp add: ev)
qed

lemma pool_wf_admit:
  assumes "distinct (map fst (pages b))" and "distinct (lru_list b)"
    and "set (lru_list b) = set (map fst (pages b))"
    and "0 < pool_size b" and "length (pages b) < pool_size b"
    and "k \<notin> fst ` set (pages b)"
  shows "pool_wf (b\<lparr>pages := AList.update k page (pages b), lru_list := k # lru_list b\<rparr>)"
  using assms by (simp add: pool_wf_def keys_update_new length_update_new)

lemma pool_wf_fetchPage:
  assumes "pool_wf bpm"
  shows "pool_wf (snd (fetchPage bpm f p))"
proof (cases "map_of (pages bpm) (f, p)")
  case (Some page)
  then show ?thesis
    using assms by (simp add: fetchPage_def pool_wf_updateLRU)
next
  case None
  define rd where "rd = readPage (disk_manager bpm) f p"
  define page where "page = \<lparr>page_id = p, is_dirty = False, data = fst rd\<rparr>"
  define bpm1 where "bpm1 = bpm\<lparr>disk_manager := snd rd\<rparr>"
  define bpm2 where
    "bpm2 = (if getTotalPages bpm1 \<ge> pool_size bpm1 then evictPage bpm1 else bpm1)"
  have res: "snd (fetchPage bpm f p) =
      bpm2\<lparr>pages := AList.update (f, p) page (pages bpm2), lru_list := (f, p) # lru_list bpm2\<rparr>"
    using None by (simp add: fetchPage_def Let_def rd_def page_def bpm1_def bpm2_def)
  have wf1: "pool_wf bpm1"
    using assms by (simp add: pool_wf_def bpm1_def)
  have notin1: "(f, p) \<notin> fst ` set (pages bpm1)"
    using None by (simp add: bpm1_def map_of_None_fst)
  have "pool_wf (bpm2\<lparr>pages := AList.update (f, p) page (pages bpm2),
                       lru_list := (f, p) # lru_list bpm2\<rparr>)"
  proof (cases "getTotalPages bpm1 \<ge> pool_size bpm1")
    case True
    then have b2: "bpm2 = evictPage bpm1"
      by (simp add: bpm2_def)
    from True wf1 have ne: "pages bpm1 \<noteq> []"
      by (auto simp: getTotalPages_def pool_wf_def)
    note sh = evictPage_shrinks [OF wf1 ne]
    have "length (pages (evictPage bpm1)) < pool_size (evictPage bpm1)"
      using sh(4,5) wf1 by (simp add: pool_wf_def)
    moreover have "0 < pool_size (evictPage bpm1)"
      using sh(4) wf1 by (simp add: pool_wf_def)
    moreover have "(f, p) \<notin> fst ` set (pages (evictPage bpm1))"
      using notin1 keys_evictPage_subset [of bpm1] by blast
    ultimately show ?thesis
      unfolding b2 using sh(1,2,3) by (intro pool_wf_admit) auto
  next
    case False
    then have b2: "bpm2 = bpm1"
      by (simp add: bpm2_def)
    from False wf1 show ?thesis
      unfolding b2 using notin1
      by (intro pool_wf_admit) (auto simp: pool_wf_def getTotalPages_def)
  qed
  then show ?thesis by (simp add: res)
qed

lemma pool_wf_apply_pool_op: "pool_wf bpm \<Longrightarrow> pool_wf (apply_pool_op op bpm)"
  by (cases op)
     (simp_all add: pool_wf_fetchPage pool_wf_modifyPage pool_wf_flushPage pool_wf_flushAllPages)

lemma pool_wf_fold: "pool_wf bpm \<Longrightarrow> pool_wf (fold apply_pool_op ops bpm)"
  by (induction ops arbitrary: bpm) (simp_all add: pool_wf_apply_pool_op)

lemma pool_size_fetchPage: "pool_wf bpm \<Longrightarrow> pool_size (snd (fetchPage bpm f p)) = pool_size bpm"
  by (auto simp: fetchPage_def Let_def updateLRU_def evictPage_def pool_size_flushPage
           split: option.splits)

lemma pool_size_apply_pool_op:
  "pool_wf bpm \<Longrightarrow> pool_size (apply_pool_op op bpm) = pool_size bpm"
  by (cases op)
     (simp_all add: pool_size_fetchPage pool_size_modifyPage pool_size_flushPage flushAllPages_def)

lemma pool_size_fold:
  "pool_wf bpm \<Longrightarrow> pool_size (fold apply_pool_op ops bpm) = pool_size bpm"
  by (induction ops arbitrary: bpm) (simp_all add: pool_size_apply_pool_op pool_wf_apply_pool_op)

lemma flushAllPages_clean: "filter (\<lambda>e. is_dirty (snd e)) (pages (flushAllPages bpm)) = []"
  by (simp add: flushAllPages_def filter_empty_conv)

text \<open>
  C5. Whatever sequence of fetches, writes through fetched handles, single flushes and full
  flushes runs on a fresh pool, the number of resident pages stays at most
  \<open>BUFFER_POOL_SIZE = 1000\<close>, and right after \<open>flushAllPages\<close> the list of resident pages
  whose dirty flag is set is empty.
\<close>

theorem buffer_pool_bounded_and_clean_after_flush:
  "getTotalPages (run_pool ops) \<le> BUFFER_POOL_SIZE \<and> BUFFER_POOL_SIZE = 1000 \<and>
   filter (\<lambda>e. is_dirty (snd e)) (pages (flushAllPages (run_pool ops))) = []"
proof -
  have wf0: "pool_wf (new_BufferPoolManager new_DiskManager)"
    by (rule pool_wf_new)
  have "pool_wf (run_pool ops)"
    unfolding run_pool_def by (rule pool_wf_fold [OF wf0])
  moreover have "pool_size (run_pool ops) = pool_size (new_BufferPoolManager new_DiskManager)"
    unfolding run_pool_def by (rule pool_size_fold [OF wf0])
  then have "pool_size (run_pool ops) = BUFFER_POOL_SIZE"
    by (simp add: new_BufferPoolManager_def)
  ultimately have "getTotalPages (run_pool ops) \<le> BUFFER_POOL_SIZE"
    by (simp add: pool_wf_def getTotalPages_def)
  then show ?thesis
    by (simp add: flushAllPages_clean BUFFER_POOL_SIZE_def)
qed

section \<open>What a page holds\<close>

text \<open>
  Page ids below \<open>PAGE_LIMIT\<close> have distinct file offsets that the stream can seek to. The
  content of a page is what a fetch would return: the resident copy, or else the block on
  disk.
\<close>

definition PAGE_LIMIT :: nat where
  "PAGE_LIMIT = 2 ^ 51"

definition content :: "BufferPoolManager \<Rightarrow> string \<times> PageId \<Rightarrow> byte list" where
  "content bpm key =
     (case map_of (pages bpm) key of
        Some page \<Rightarrow> data page
      | None \<Rightarrow> blocks (disk_manager bpm (fst key)) (seek_offset (snd key)))"

definition store_ok :: "BufferPoolManager \<Rightarrow> bool" where
  "store_ok bpm \<longleftrightarrow>
     (\<forall>key \<in> fst ` set (pages bpm). snd key < PAGE_LIMIT) \<and>
     (\<forall>f. \<not> failbit (disk_manager bpm f)) \<and>
     (\<forall>key page. map_of (pages bpm) key = Some page \<and> \<not> is_dirty page \<longrightarrow>
        data page = blocks (disk_manager bpm (fst key)) (seek_offset (snd key))) \<and>
     (\<forall>f off. length (blocks (disk_manager bpm f) off) = PAGE_SIZE) \<and>
     (\<forall>key page. map_of (pages bpm) key = Some page \<longrightarrow> length (data page) = PAGE_SIZE)"

definition pool_ok :: "BufferPoolManager \<Rightarrow> bool" where
  "pool_ok bpm \<longleftrightarrow> pool_wf bpm \<and> store_ok bpm"

definition same_content :: "BufferPoolManager \<Rightarrow> BufferPoolManager \<Rightarrow> bool" where
  "same_content bpm bpm' \<longleftrightarrow> (\<forall>f p. p < PAGE_LIMIT \<longrightarrow> content bpm' (f, p) = content bpm (f, p))"

lemma store_okD:
  assumes "store_ok bpm"
  shows "\<And>key page. map_of (pages bpm) key = Some page \<Longrightarrow> snd key < PAGE_LIMIT"
    and "\<And>f. \<not> failbit (disk_manager bpm f)"
    and "\<And>key page. map_of (pages bpm) key = Some page \<Longrightarrow> \<not> is_dirty page \<Longrightarrow>
           data page = blocks (disk_manager bpm (fst key)) (seek_offset (snd key))"
    and "\<And>f off. length (blocks (disk_manager bpm f) off) = PAGE_SIZE"
    and "\<And>key page. map_of (pages bpm) key = Some page \<Longrightarrow> length (data page) = PAGE_SIZE"
proof -
  show "\<And>key page. map_of (pages bpm) key = Some page \<Longrightarrow> snd key < PAGE_LIMIT"
    using assms unfolding store_ok_def by (meson map_of_dom_fst)
  show "\<And>f. \<not> failbit (disk_manager bpm f)"
    using assms unfolding store_ok_def by blast
  show "\<And>key page. map_of (pages bpm) key = Some page \<Longrightarrow> \<not> is_dirty page \<Longrightarrow>
           data page = blocks (disk_manager bpm (fst key)) (seek_offset (snd key))"
    using assms unfolding store_ok_def by blast
  show "\<And>f off. length (blocks (disk_manager bpm f) off) = PAGE_SIZE"
    using assms unfolding store_ok_def by blast
  show "\<And>key page. map_of (pages bpm) key = Some page \<Longrightarrow> length (data page) = PAGE_SIZE"
    using assms unfolding store_ok_def by blast
qed

lemma store_okI:
  assumes "\<And>key page. map_of (pages bpm) key = Some page \<Longrightarrow> snd key < PAGE_LIMIT"
    and "\<And>f. \<not> failbit (disk_manager bpm f)"
    and "\<And>key page. map_of (pages bpm) key = Some page \<Longrightarrow> \<not> is_dirty page \<Longrightarrow>
           data page = blocks (disk_manager bpm (fst key)) (seek_offset (snd key))"
    and "\<And>f off. length (blocks (disk_manager bpm f) off) = PAGE_SIZE"
    and "\<And>key page. map_of (pages bpm) key = Some page \<Longrightarrow> length (data page) = PAGE_SIZE"
  shows "store_ok bpm"
  unfolding store_ok_def
proof (intro conjI ballI allI impI)
  fix key assume "key \<in> fst ` set (pages bpm)"
  then obtain page where "map_of (pages bpm) key = Some page"
    by (metis map_of_eq_None_iff not_Some_eq)
  then show "snd key < PAGE_LIMIT" by (rule assms(1))
qed (use assms in blast)+

lemma seek_offset_small: "p < PAGE_LIMIT \<Longrightarrow> seek_offset p = p * PAGE_SIZE"
  by (simp add: seek_offset_def PAGE_LIMIT_def PAGE_SIZE_def)

lemma seek_ok_small: "p < PAGE_LIMIT \<Longrightarrow> seek_ok (seek_offset p)"
  by (simp add: seek_offset_small seek_ok_def PAGE_LIMIT_def PAGE_SIZE_def)

lemma seek_offset_inj:
  "p < PAGE_LIMIT \<Longrightarrow> q < PAGE_LIMIT \<Longrightarrow> seek_offset p = seek_offset q \<longleftrightarrow> p = q"
  by (simp add: seek_offset_small PAGE_SIZE_def)

lemma pool_ok_new: "pool_ok (new_BufferPoolManager new_DiskManager)"
  by (simp add: pool_ok_def pool_wf_new store_ok_def)
     (simp add: new_BufferPoolManager_def new_DiskManager_def zero_bytes_def)

lemma content_new: "content (new_BufferPoolManager new_DiskManager) key = zero_bytes PAGE_SIZE"
  by (simp add: content_def new_BufferPoolManager_def new_DiskManager_def)

lemma same_content_refl [simp]: "same_content b b"
  by (simp add: same_content_def)

lemma same_content_trans: "same_content a b \<Longrightarrow> same_content b c \<Longrightarrow> same_content a c"
  by (simp add: same_content_def)

lemma content_updateLRU [simp]: "content (updateLRU bpm f p) = content bpm"
  by (rule ext) (auto simp: content_def updateLRU_def split: option.splits)

lemma store_ok_lru [simp]: "store_ok (bpm\<lparr>lru_list := l\<rparr>) = store_ok bpm"
  by (simp add: store_ok_def)

lemma content_lru [simp]: "content (bpm\<lparr>lru_list := l\<rparr>) = content bpm"
  by (rule ext) (simp add: content_def split: option.splits)

lemma pages_updateLRU [simp]: "pages (updateLRU bpm f p) = pages bpm"
  by (simp add: updateLRU_def)

lemma store_ok_updateLRU: "store_ok bpm \<Longrightarrow> store_ok (updateLRU bpm f p)"
  by (simp add: updateLRU_def)

lemma flushPage_resident_dirty:
  assumes "map_of (pages bpm) (f, p) = Some page" and "is_dirty page"
  shows "flushPage bpm f p =
    bpm\<lparr>disk_manager := writePage (disk_manager bpm) f p (data page),
        pages := AList.update (f, p) (page\<lparr>is_dirty := False\<rparr>) (pages bpm)\<rparr>"
  using assms by (simp add: flushPage_def)

lemma flushPage_other:
  assumes "map_of (pages bpm) (f, p) = None \<or>
           (\<exists>page. map_of (pages bpm) (f, p) = Some page \<and> \<not> is_dirty page)"
  shows "flushPage bpm f p = bpm"
  using assms by (auto simp: flushPage_def)

lemma flushPage_clean:
  "map_of (pages (flushPage bpm f p)) (f, p) = Some page \<Longrightarrow> \<not> is_dirty page"
  by (auto simp: flushPage_def update_conv' split: option.splits if_splits)

lemma writePage_small:
  assumes "p < PAGE_LIMIT"
  shows "writePage dm f p bytes =
     dm(f := (dm f)\<lparr>failbit := False, blocks := (blocks (dm f))(seek_offset p := bytes)\<rparr>)"
  using seek_ok_small [OF assms] by (simp add: writePage_def Let_def)

lemma flushPage_ok:
  assumes ok: "store_ok bpm"
  shows "store_ok (flushPage bpm f p) \<and> same_content bpm (flushPage bpm f p)"
proof (cases "\<exists>page. map_of (pages bpm) (f, p) = Some page \<and> is_dirty page")
  case False
  then have "flushPage bpm f p = bpm"
    by (intro flushPage_other) (cases "map_of (pages bpm) (f, p)"; auto)
  with ok show ?thesis by simp
next
  case True
  then obtain page where res: "map_of (pages bpm) (f, p) = Some page" and dirty: "is_dirty page"
    by blast
  have small: "p < PAGE_LIMIT"
    using store_okD(1) [OF ok res] by simp
  define dm' where "dm' = writePage (disk_manager bpm) f p (data page)"
  define pg' where "pg' = AList.update (f, p) (page\<lparr>is_dirty := False\<rparr>) (pages bpm)"
  have fl: "flushPage bpm f p = bpm\<lparr>disk_manager := dm', pages := pg'\<rparr>"
    by (simp add: flushPage_resident_dirty [OF res dirty] dm'_def pg'_def)
  have dm'_eq: "dm' = (disk_manager bpm)(f := (disk_manager bpm f)\<lparr>failbit := False,
          blocks := (blocks (disk_manager bpm f))(seek_offset p := data page)\<rparr>)"
    by (simp add: dm'_def writePage_small [OF small])
  have mo: "\<And>k. map_of pg' k =
      (if k = (f, p) then Some (page\<lparr>is_dirty := False\<rparr>) else map_of (pages bpm) k)"
    by (simp add: pg'_def update_conv')
  have lenp: "length (data page) = PAGE_SIZE"
    using store_okD(5) [OF ok res] .
  have resident_small: "\<And>k pg. map_of (pages bpm) k = Some pg \<Longrightarrow> snd k < PAGE_LIMIT"
    using store_okD(1) [OF ok] .
  have blk: "\<And>k. snd k < PAGE_LIMIT \<Longrightarrow> blocks (dm' (fst k)) (seek_offset (snd k)) =
      (if k = (f, p) then data page else blocks (disk_manager bpm (fst k)) (seek_offset (snd k)))"
    using small by (auto simp: dm'_eq seek_offset_inj prod_eq_iff)
  have "store_ok (bpm\<lparr>disk_manager := dm', pages := pg'\<rparr>)"
  proof (rule store_okI)
    fix key pg assume "map_of (pages (bpm\<lparr>disk_manager := dm', pages := pg'\<rparr>)) key = Some pg"
    then show "snd key < PAGE_LIMIT"
      using small resident_small [of key] by (auto simp: mo split: if_splits)
  next
    fix g show "\<not> failbit (disk_manager (bpm\<lparr>disk_manager := dm', pages := pg'\<rparr>) g)"
      using store_okD(2) [OF ok] by (simp add: dm'_eq)
  next
    fix key pg
    assume a: "map_of (pages (bpm\<lparr>disk_manager := dm', pages := pg'\<rparr>)) key = Some pg"
      and nd: "\<not> is_dirty pg"
    show "data pg = blocks (disk_manager (bpm\<lparr>disk_manager := dm', pages := pg'\<rparr>) (fst key))
                      (seek_offset (snd key))"
    proof (cases "key = (f, p)")
      case True
      with a have "pg = page\<lparr>is_dirty := False\<rparr>" by (simp add: mo)
      with True show ?thesis using blk [of key] small by simp
    next
      case False
      with a have r: "map_of (pages bpm) key = Some pg" by (simp add: mo)
      then have "snd key < PAGE_LIMIT" by (rule resident_small)
      moreover have "data pg = blocks (disk_manager bpm (fst key)) (seek_offset (snd key))"
        using store_okD(3) [OF ok r nd] .
      ultimately show ?thesis using blk [of key] False by simp
    qed
  next
    fix g off
    show "length (blocks (disk_manager (bpm\<lparr>disk_manager := dm', pages := pg'\<rparr>) g) off) = PAGE_SIZE"
      using store_okD(4) [OF ok] lenp by (simp add: dm'_eq)
  next
    fix key pg
    assume "map_of (pages (bpm\<lparr>disk_manager := dm', pages := pg'\<rparr>)) key = Some pg"
    then show "length (data pg) = PAGE_SIZE"
      using store_okD(5) [OF ok, of key pg] lenp by (auto simp: mo split: if_splits)
  qed
  moreover have "same_content bpm (bpm\<lparr>disk_manager := dm', pages := pg'\<rparr>)"
    unfolding same_content_def content_def
    using res blk by (auto simp: mo split: option.splits)
  ultimately show ?thesis by (simp add: fl)
qed

lemma store_ok_delete_clean:
  assumes ok: "store_ok bpm"
    and clean: "\<And>page. map_of (pages bpm) k = Some page \<Longrightarrow> \<not> is_dirty page"
  shows "store_ok (bpm\<lparr>pages := AList.delete k (pages bpm)\<rparr>) \<and>
         same_content bpm (bpm\<lparr>pages := AList.delete k (pages bpm)\<rparr>)"
proof -
  have mo: "\<And>k'. map_of (AList.delete k (pages bpm)) k' =
      (if k' = k then None else map_of (pages bpm) k')"
    by (simp add: delete_conv')
  have "store_ok (bpm\<lparr>pages := AList.delete k (pages bpm)\<rparr>)"
    using store_okD [OF ok] by (intro store_okI) (auto simp: mo split: if_splits)
  moreover have "same_content bpm (bpm\<lparr>pages := AList.delete k (pages bpm)\<rparr>)"
    unfolding same_content_def content_def
    using store_okD(3) [OF ok, of k] clean by (auto simp: mo split: option.splits)
  ultimately show ?thesis ..
qed

lemma evictPage_ok:
  assumes ok: "store_ok bpm"
  shows "store_ok (evictPage bpm) \<and> same_content bpm (evictPage bpm)"
proof (cases "lru_list bpm = []")
  case True
  with ok show ?thesis by (simp add: evictPage_def)
next
  case False
  define victim where "victim = last (lru_list bpm)"
  define bpm1 where "bpm1 = bpm\<lparr>lru_list := butlast (lru_list bpm)\<rparr>"
  define bpm2 where "bpm2 = flushPage bpm1 (fst victim) (snd victim)"
  have ev: "evictPage bpm = bpm2\<lparr>pages := AList.delete victim (pages bpm2)\<rparr>"
    using False by (simp add: evictPage_def Let_def victim_def bpm1_def bpm2_def)
  have ok1: "store_ok bpm1" and sc1: "same_content bpm bpm1"
    using ok by (simp_all add: bpm1_def same_content_def)
  have ok2: "store_ok bpm2" and sc2: "same_content bpm1 bpm2"
    using flushPage_ok [OF ok1] by (simp_all add: bpm2_def)
  have clean: "\<And>page. map_of (pages bpm2) victim = Some page \<Longrightarrow> \<not> is_dirty page"
    using flushPage_clean [of bpm1 "fst victim" "snd victim"] by (simp add: bpm2_def)
  from store_ok_delete_clean [OF ok2 clean] sc1 sc2 show ?thesis
    unfolding ev by (blast intro: same_content_trans)
qed

lemma fetchPage_ok:
  assumes ok: "pool_ok bpm" and small: "p < PAGE_LIMIT"
  shows "pool_ok (snd (fetchPage bpm f p))"
    and "same_content bpm (snd (fetchPage bpm f p))"
    and "data (fst (fetchPage bpm f p)) = content bpm (f, p)"
    and "map_of (pages (snd (fetchPage bpm f p))) (f, p) = Some (fst (fetchPage bpm f p))"
proof -
  have wf: "pool_wf bpm" and sok: "store_ok bpm"
    using ok by (simp_all add: pool_ok_def)
  have wf': "pool_wf (snd (fetchPage bpm f p))"
    by (rule pool_wf_fetchPage [OF wf])
  have "store_ok (snd (fetchPage bpm f p)) \<and> same_content bpm (snd (fetchPage bpm f p)) \<and>
        data (fst (fetchPage bpm f p)) = content bpm (f, p) \<and>
        map_of (pages (snd (fetchPage bpm f p))) (f, p) = Some (fst (fetchPage bpm f p))"
  proof (cases "map_of (pages bpm) (f, p)")
    case (Some page)
    then have "fetchPage bpm f p = (page, updateLRU bpm f p)"
      by (simp add: fetchPage_def)
    moreover have "content bpm (f, p) = data page"
      using Some by (simp add: content_def)
    ultimately show ?thesis
      using sok Some by (simp add: store_ok_updateLRU same_content_def)
  next
    case None
    have rd: "readPage (disk_manager bpm) f p =
        (blocks (disk_manager bpm f) (seek_offset p), disk_manager bpm)"
      using store_okD(2) [OF sok, of f] seek_ok_small [OF small]
      by (simp add: readPage_def Let_def)
    define page where
      "page = \<lparr>page_id = p, is_dirty = False, data = blocks (disk_manager bpm f) (seek_offset p)\<rparr>"
    define bpm2 where
      "bpm2 = (if getTotalPages bpm \<ge> pool_size bpm then evictPage bpm else bpm)"
    have res: "fetchPage bpm f p =
        (page, bpm2\<lparr>pages := AList.update (f, p) page (pages bpm2),
                    lru_list := (f, p) # lru_list bpm2\<rparr>)"
      using None by (simp add: fetchPage_def Let_def rd page_def bpm2_def)
    have ok2: "store_ok bpm2" and sc2: "same_content bpm bpm2"
      using evictPage_ok [OF sok] sok by (auto simp: bpm2_def)
    have c2: "content bpm2 (f, p) = content bpm (f, p)"
      using sc2 small by (simp add: same_content_def)
    have cb: "content bpm (f, p) = data page"
      using None by (simp add: content_def page_def)
    have notin2: "map_of (pages bpm2) (f, p) = None"
    proof -
      have "(f, p) \<notin> fst ` set (pages bpm)"
        using None by (simp add: map_of_None_fst)
      then have "(f, p) \<notin> fst ` set (pages bpm2)"
        using keys_evictPage_subset [of bpm] by (auto simp: bpm2_def)
      then show ?thesis by (simp add: map_of_eq_None_iff)
    qed
    have blk2: "blocks (disk_manager bpm2 f) (seek_offset p) = data page"
      using c2 cb notin2 by (simp add: content_def)
    define bpm3 where "bpm3 = bpm2\<lparr>pages := AList.update (f, p) page (pages bpm2),
                    lru_list := (f, p) # lru_list bpm2\<rparr>"
    have mo: "\<And>k. map_of (pages bpm3) k = (if k = (f, p) then Some page else map_of (pages bpm2) k)"
      by (simp add: bpm3_def update_conv')
    have dm3: "disk_manager bpm3 = disk_manager bpm2"
      by (simp add: bpm3_def)
    have "store_ok bpm3"
    proof (rule store_okI)
      fix key pg assume "map_of (pages bpm3) key = Some pg"
      then show "snd key < PAGE_LIMIT"
        using small store_okD(1) [OF ok2, of key] by (auto simp: mo split: if_splits)
    next
      fix g show "\<not> failbit (disk_manager bpm3 g)"
        using store_okD(2) [OF ok2] by (simp add: dm3)
    next
      fix key pg
      assume "map_of (pages bpm3) key = Some pg" and "\<not> is_dirty pg"
      then show "data pg = blocks (disk_manager bpm3 (fst key)) (seek_offset (snd key))"
        using store_okD(3) [OF ok2, of key pg] blk2 by (auto simp: mo dm3 split: if_splits)
    next
      fix g off show "length (blocks (disk_manager bpm3 g) off) = PAGE_SIZE"
        using store_okD(4) [OF ok2] by (simp add: dm3)
    next
      fix key pg
      assume "map_of (pages bpm3) key = Some pg"
      then show "length (data pg) = PAGE_SIZE"
        using store_okD(5) [OF ok2, of key pg] store_okD(4) [OF sok, of f "seek_offset p"]
        by (auto simp: mo page_def split: if_splits)
    qed
    moreover have "same_content bpm2 bpm3"
      unfolding same_content_def content_def
      using blk2 notin2 by (auto simp: mo dm3 split: option.splits)
    then have "same_content bpm bpm3"
      using sc2 by (blast intro: same_content_trans)
    ultimately show ?thesis
      using cb by (simp add: res bpm3_def [symmetric] mo)
  qed
  then show "pool_ok (snd (fetchPage bpm f p))"
    and "same_content bpm (snd (fetchPage bpm f p))"
    and "data (fst (fetchPage bpm f p)) = content bpm (f, p)"
    and "map_of (pages (snd (fetchPage bpm f p))) (f, p) = Some (fst (fetchPage bpm f p))"
    using wf' by (simp_all add: pool_ok_def)
qed

text \<open>Fetching a page and writing it through the handle: the one way pages change.\<close>

definition write_page :: "BufferPoolManager \<Rightarrow> string \<Rightarrow> PageId \<Rightarrow> byte list \<Rightarrow> BufferPoolManager" where
  "write_page bpm f p d =
     modifyPage (snd (fetchPage bpm f p)) f p (\<lambda>page. page\<lparr>data := d, is_dirty := True\<rparr>)"

lemma write_page_ok:
  assumes ok: "pool_ok bpm" and small: "p < PAGE_LIMIT" and len: "length d = PAGE_SIZE"
  shows "pool_ok (write_page bpm f p d)"
    and "\<And>f' p'. p' < PAGE_LIMIT \<Longrightarrow>
           content (write_page bpm f p d) (f', p') = (if (f', p') = (f, p) then d else content bpm (f', p'))"
proof -
  define bpm1 where "bpm1 = snd (fetchPage bpm f p)"
  define page where "page = fst (fetchPage bpm f p)"
  note fo = fetchPage_ok [OF ok small, of f, folded bpm1_def page_def]
  have res: "map_of (pages bpm1) (f, p) = Some page"
    using fo(4) .
  define bpm2 where "bpm2 = bpm1\<lparr>pages := AList.update (f, p) (page\<lparr>data := d, is_dirty := True\<rparr>) (pages bpm1)\<rparr>"
  have wp: "write_page bpm f p d = bpm2"
    using res by (simp add: write_page_def modifyPage_def bpm1_def [symmetric] bpm2_def)
  have mo: "\<And>k. map_of (pages bpm2) k =
      (if k = (f, p) then Some (page\<lparr>data := d, is_dirty := True\<rparr>) else map_of (pages bpm1) k)"
    by (simp add: bpm2_def update_conv')
  have dm2: "disk_manager bpm2 = disk_manager bpm1"
    by (simp add: bpm2_def)
  have ok1: "store_ok bpm1" and wf1: "pool_wf bpm1"
    using fo(1) by (simp_all add: pool_ok_def)
  have "pool_wf bpm2"
    using pool_wf_modifyPage [OF wf1, of f p "\<lambda>page. page\<lparr>data := d, is_dirty := True\<rparr>"] res
    by (simp add: modifyPage_def bpm2_def)
  moreover have "store_ok bpm2"
  proof (rule store_okI)
    fix key pg assume "map_of (pages bpm2) key = Some pg"
    then show "snd key < PAGE_LIMIT"
      using small store_okD(1) [OF ok1, of key] by (auto simp: mo split: if_splits)
  next
    fix g show "\<not> failbit (disk_manager bpm2 g)"
      using store_okD(2) [OF ok1] by (simp add: dm2)
  next
    fix key pg
    assume "map_of (pages bpm2) key = Some pg" and "\<not> is_dirty pg"
    then show "data pg = blocks (disk_manager bpm2 (fst key)) (seek_offset (snd key))"
      using store_okD(3) [OF ok1, of key pg] by (auto simp: mo dm2 split: if_splits)
  next
    fix g off show "length (blocks (disk_manager bpm2 g) off) = PAGE_SIZE"
      using store_okD(4) [OF ok1] by (simp add: dm2)
  next
    fix key pg
    assume "map_of (pages bpm2) key = Some pg"
    then show "length (data pg) = PAGE_SIZE"
      using store_okD(5) [OF ok1, of key pg] len by (auto simp: mo split: if_splits)
  qed
  ultimately show "pool_ok (write_page bpm f p d)"
    by (simp add: wp pool_ok_def)
  fix f' p' assume sp: "p' < PAGE_LIMIT"
  have "content bpm2 (f', p') = (if (f', p') = (f, p) then d else content bpm1 (f', p'))"
    by (simp add: content_def mo dm2 split: option.splits)
  moreover have "content bpm1 (f', p') = content bpm (f', p')"
    using fo(2) sp by (simp add: same_content_def)
  ultimately show "content (write_page bpm f p d) (f', p') =
      (if (f', p') = (f, p) then d else content bpm (f', p'))"
    by (simp add: wp)
qed

lemma flushPage_pool_ok:
  assumes "pool_ok bpm"
  shows "pool_ok (flushPage bpm f p)" and "same_content bpm (flushPage bpm f p)"
  using assms flushPage_ok [of bpm f p] pool_wf_flushPage [of bpm f p]
  by (simp_all add: pool_ok_def)

section \<open>Encoding and decoding\<close>

text \<open>What a stored value reads back as: a string loses what lies beyond byte 255 or a NUL.\<close>

fun stored :: "Value \<Rightarrow> Value" where
  "stored (VString s) = VString (takeWhile (\<lambda>c. c \<noteq> CHR 0x00) (take 255 s))"
| "stored v = v"

definition has_type :: "DataType \<Rightarrow> Value \<Rightarrow> bool" where
  "has_type ty v \<longleftrightarrow> variant_index v = type_code ty"

definition enc :: "DataType \<Rightarrow> Value \<Rightarrow> byte list" where
  "enc ty v = (case serializeValue v ty of Inr bs \<Rightarrow> bs | Inl e \<Rightarrow> [])"

lemma length_le_bytes [simp]: "length (le_bytes n x) = n"
  by (induction n arbitrary: x) simp_all

lemma le_nat_le_bytes: "le_nat (le_bytes n x) = x mod 256 ^ n"
proof (induction n arbitrary: x)
  case 0
  then show ?case by simp
next
  case (Suc n)
  have "unat (of_nat (x mod 256) :: byte) = x mod 256"
    by (simp add: unat_of_nat)
  then show ?case
    using Suc [of "x div 256"] by (simp add: mod_mult2_eq)
qed

lemma le_nat_le_bytes_small: "x < 256 ^ n \<Longrightarrow> le_nat (le_bytes n x) = x"
  by (simp add: le_nat_le_bytes)

lemma le_nat_zero [simp]: "le_nat (replicate n 0) = 0"
  by (induction n) simp_all

lemma unat_byte_of_char: "unat (byte_of_char c) = of_char c"
proof -
  have "byte_of_char c = of_nat (of_char c)"
    by (simp add: byte_of_char_def of_nat_of_char)
  then have "unat (byte_of_char c) = (of_char c :: nat) mod 256"
    by (simp add: unat_of_nat)
  then show ?thesis by simp
qed

lemma char_of_byte_of_char [simp]: "char_of_byte (byte_of_char c) = c"
  by (simp add: char_of_byte_def unat_byte_of_char)

lemma byte_of_char_eq_0: "byte_of_char c = 0 \<longleftrightarrow> c = CHR 0x00"
proof
  assume a: "byte_of_char c = 0"
  have "c = char_of_byte (byte_of_char c)" by simp
  also have "\<dots> = char_of_byte 0" by (simp only: a)
  also have "\<dots> = CHR 0x00" by (simp add: char_of_byte_def char_of_def)
  finally show "c = CHR 0x00" .
next
  assume "c = CHR 0x00"
  then show "byte_of_char c = 0" by (simp add: byte_of_char_def)
qed

lemma has_type_cases:
  "has_type ty v \<longleftrightarrow>
     (case (ty, v) of
        (INT32, VInt32 _) \<Rightarrow> True | (INT64, VInt64 _) \<Rightarrow> True | (FLOAT, VFloat _) \<Rightarrow> True
      | (DOUBLE, VDouble _) \<Rightarrow> True | (STRING, VString _) \<Rightarrow> True | (BOOL, VBool _) \<Rightarrow> True
      | _ \<Rightarrow> False)"
  by (cases ty; cases v) (simp_all add: has_type_def)

lemma serializeValue_typed: "has_type ty v \<Longrightarrow> serializeValue v ty = Inr (enc ty v)"
  by (cases ty; cases v) (simp_all add: has_type_def enc_def)

lemma serializeValue_untyped: "\<not> has_type ty v \<Longrightarrow> serializeValue v ty = Inl BadVariantAccess"
  by (cases ty; cases v) (simp_all add: has_type_def)

lemma length_string_bytes [simp]: "length (string_bytes s) = 256"
  by (simp add: string_bytes_def zero_bytes_def)

lemma length_enc: "has_type ty v \<Longrightarrow> length (enc ty v) = getRecordSize ty"
  by (cases ty; cases v) (simp_all add: has_type_def enc_def)

lemma takeWhile_zero_pad:
  "takeWhile (\<lambda>b. b \<noteq> (0::byte)) (xs @ replicate (Suc m) 0) = takeWhile (\<lambda>b. b \<noteq> 0) xs"
  by (induction xs) simp_all

lemma takeWhile_map_byte:
  "takeWhile (\<lambda>b. b \<noteq> 0) (map byte_of_char s) = map byte_of_char (takeWhile (\<lambda>c. c \<noteq> CHR 0x00) s)"
  by (induction s) (simp_all add: byte_of_char_eq_0)

lemma decode_string_bytes:
  "map char_of_byte (takeWhile (\<lambda>b. b \<noteq> 0) (string_bytes s)) =
   takeWhile (\<lambda>c. c \<noteq> CHR 0x00) (take 255 s)"
proof -
  have "256 - length (take 255 s) = Suc (255 - length (take 255 s))"
    by simp
  then have "string_bytes s = map byte_of_char (take 255 s) @ replicate (Suc (255 - length (take 255 s))) 0"
    by (simp only: string_bytes_def zero_bytes_def)
  then show ?thesis
    by (simp only: takeWhile_zero_pad takeWhile_map_byte) (simp add: comp_def)
qed

lemma word32_roundtrip: "(of_nat (unat (v :: 32 word) mod 256 ^ 4) :: 32 word) = v"
proof -
  have "unat v < 256 ^ 4"
    using unsigned_less [of v, where ?'a = nat] by simp
  then show ?thesis by simp
qed

lemma word64_roundtrip: "(of_nat (unat (v :: 64 word) mod 256 ^ 8) :: 64 word) = v"
proof -
  have "unat v < 256 ^ 8"
    using unsigned_less [of v, where ?'a = nat] by simp
  then show ?thesis by simp
qed

lemma word32_roundtrip' [simp]: "(of_nat (unat (v :: 32 word) mod 4294967296) :: 32 word) = v"
  using word32_roundtrip [of v] by simp

lemma word64_roundtrip' [simp]: "(of_nat (unat (v :: 64 word) mod 18446744073709551616) :: 64 word) = v"
  using word64_roundtrip [of v] by simp

lemma decode_enc:
  assumes "has_type ty v"
  shows "decode_value ty (enc ty v @ rest) = stored v"
  using assms
  by (cases ty; cases v)
     (simp_all add: has_type_def enc_def le_nat_le_bytes decode_string_bytes)


subsection \<open>Keys and page ids in a node image\<close>

lemma serialize_keys_ok:
  assumes "\<forall>k \<in> set ks. has_type ty k"
    and "length img + length ks * getRecordSize ty \<le> PAGE_SIZE"
  shows "serialize_keys ty ks img = Inr (img @ concat (map (enc ty) ks))"
  using assms
proof (induction ks arbitrary: img)
  case Nil
  then show ?case by simp
next
  case (Cons k ks)
  then have t: "has_type ty k" by simp
  have "length img + length (enc ty k) \<le> PAGE_SIZE"
    using Cons.prems(2) by (simp add: length_enc [OF t])
  moreover have "serialize_keys ty ks (img @ enc ty k) = Inr ((img @ enc ty k) @ concat (map (enc ty) ks))"
    using Cons.prems by (intro Cons.IH) (simp_all add: length_enc [OF t])
  ultimately show ?case
    by (simp add: serializeValue_typed [OF t])
qed

lemma serialize_keys_overflow:
  assumes "\<forall>k \<in> set ks. has_type ty k"
    and "length img + length ks * getRecordSize ty > PAGE_SIZE"
    and "length img \<le> PAGE_SIZE"
  shows "serialize_keys ty ks img = Inl PageOverflow"
  using assms
proof (induction ks arbitrary: img)
  case Nil
  then show ?case by simp
next
  case (Cons k ks)
  then have t: "has_type ty k" by simp
  show ?case
  proof (cases "length img + length (enc ty k) > PAGE_SIZE")
    case True
    then show ?thesis by (simp add: serializeValue_typed [OF t])
  next
    case False
    moreover have "serialize_keys ty ks (img @ enc ty k) = Inl PageOverflow"
      using Cons.prems False by (intro Cons.IH) (simp_all add: length_enc [OF t])
    ultimately show ?thesis by (simp add: serializeValue_typed [OF t])
  qed
qed

lemma serialize_u64s_ok:
  assumes "length img + 8 * length xs \<le> PAGE_SIZE"
  shows "serialize_u64s xs img = Inr (img @ concat (map (le_bytes 8) xs))"
  using assms
proof (induction xs arbitrary: img)
  case Nil
  then show ?case by simp
next
  case (Cons x xs)
  have "serialize_u64s xs (img @ le_bytes 8 x) = Inr ((img @ le_bytes 8 x) @ concat (map (le_bytes 8) xs))"
    using Cons.prems by (intro Cons.IH) simp
  then show ?case using Cons.prems by simp
qed

lemma serialize_u64s_overflow:
  assumes "length img + 8 * length xs > PAGE_SIZE"
    and "length img \<le> PAGE_SIZE"
  shows "serialize_u64s xs img = Inl PageOverflow"
  using assms
proof (induction xs arbitrary: img)
  case Nil
  then show ?case by simp
next
  case (Cons x xs)
  show ?case
  proof (cases "length img + 8 > PAGE_SIZE")
    case True
    then show ?thesis by simp
  next
    case False
    moreover have "serialize_u64s xs (img @ le_bytes 8 x) = Inl PageOverflow"
      using Cons.prems False by (intro Cons.IH) simp_all
    ultimately show ?thesis by simp
  qed
qed

lemma length_concat_enc:
  "\<forall>k \<in> set ks. has_type ty k \<Longrightarrow> length (concat (map (enc ty) ks)) = length ks * getRecordSize ty"
  by (induction ks) (simp_all add: length_enc)

lemma length_concat_u64s [simp]: "length (concat (map (le_bytes 8) xs)) = 8 * length xs"
  by (induction xs) simp_all

lemma code_type_code [simp]: "code_type (type_code ty) = Some ty"
  by (cases ty) (simp_all add: code_type_def)

lemma deserializeValue_at:
  assumes "has_type ty v" and "length pre = off"
  shows "deserializeValue (pre @ enc ty v @ post) off (type_code ty) =
         Inr (stored v, off + getRecordSize ty)"
proof -
  have "take (getRecordSize ty) (drop off (pre @ enc ty v @ post)) = enc ty v"
    using assms by (simp add: length_enc)
  moreover have "off + getRecordSize ty \<le> length (pre @ enc ty v @ post)"
    using assms by (simp add: length_enc)
  ultimately show ?thesis
    using decode_enc [OF assms(1), of "[]"] by (simp add: deserializeValue_def)
qed

lemma deserialize_keys_at:
  assumes "\<forall>k \<in> set ks. has_type ty k" and "length pre = off"
  shows "deserialize_keys (pre @ concat (map (enc ty) ks) @ post) off (type_code ty) (length ks) =
         Inr (map stored ks, off + length ks * getRecordSize ty)"
  using assms
proof (induction ks arbitrary: pre off)
  case Nil
  then show ?case by simp
next
  case (Cons k ks)
  then have t: "has_type ty k" by simp
  have d: "deserializeValue (pre @ enc ty k @ (concat (map (enc ty) ks) @ post)) off (type_code ty) =
      Inr (stored k, off + getRecordSize ty)"
    by (rule deserializeValue_at [OF t Cons.prems(2)])
  have "deserialize_keys ((pre @ enc ty k) @ concat (map (enc ty) ks) @ post)
          (off + getRecordSize ty) (type_code ty) (length ks) =
        Inr (map stored ks, (off + getRecordSize ty) + length ks * getRecordSize ty)"
    using Cons.prems by (intro Cons.IH) (simp_all add: length_enc [OF t])
  with d show ?case by simp
qed

lemma deserialize_u64s_at:
  assumes "\<forall>x \<in> set xs. x < 2 ^ 64" and "length pre = off"
  shows "deserialize_u64s (pre @ concat (map (le_bytes 8) xs) @ post) off (length xs) =
         Inr (xs, off + 8 * length xs)"
  using assms
proof (induction xs arbitrary: pre off)
  case Nil
  then show ?case by simp
next
  case (Cons x xs)
  have x: "le_nat (le_bytes 8 x) = x"
    using Cons.prems(1) by (simp add: le_nat_le_bytes)
  have "deserialize_u64s ((pre @ le_bytes 8 x) @ concat (map (le_bytes 8) xs) @ post) (off + 8) (length xs) =
        Inr (xs, (off + 8) + 8 * length xs)"
    using Cons.prems by (intro Cons.IH) simp_all
  with x show ?case using Cons.prems(2) by simp
qed

subsection \<open>The image of a leaf\<close>

definition leaf_body :: "DataType \<Rightarrow> Value list \<Rightarrow> nat list \<Rightarrow> nat \<Rightarrow> byte list" where
  "leaf_body ty ks rs nl =
     ([1] @ le_bytes 4 (type_code ty) @ le_bytes 8 (length ks)) @ concat (map (enc ty) ks)
       @ concat (map (le_bytes 8) (rs @ [nl]))"

definition leaf_image :: "DataType \<Rightarrow> Value list \<Rightarrow> nat list \<Rightarrow> nat \<Rightarrow> byte list" where
  "leaf_image ty ks rs nl =
     leaf_body ty ks rs nl @ zero_bytes (PAGE_SIZE - length (leaf_body ty ks rs nl))"

definition leaf_size :: "DataType \<Rightarrow> nat \<Rightarrow> nat" where
  "leaf_size ty n = 13 + n * getRecordSize ty + 8 * (n + 1)"

definition leaf_node :: "Value list \<Rightarrow> nat list \<Rightarrow> nat \<Rightarrow> BPlusTreeNode" where
  "leaf_node ks rs nl = \<lparr>is_leaf = True, keys = ks, children = [], records = rs, next_leaf = nl\<rparr>"

lemma length_leaf_body:
  assumes "\<forall>k \<in> set ks. has_type ty k" and "length rs = length ks"
  shows "length (leaf_body ty ks rs nl) = leaf_size ty (length ks)"
  using assms by (simp add: leaf_body_def leaf_size_def length_concat_enc)

lemma length_leaf_image:
  assumes "\<forall>k \<in> set ks. has_type ty k" and "length rs = length ks"
    and "leaf_size ty (length ks) \<le> PAGE_SIZE"
  shows "length (leaf_image ty ks rs nl) = PAGE_SIZE"
  using assms by (simp add: leaf_image_def length_leaf_body zero_bytes_def)

lemma serializeNode_leaf:
  assumes "is_leaf node" and "\<forall>k \<in> set (keys node). has_type ty k"
    and "length (records node) = length (keys node)"
    and "leaf_size ty (length (keys node)) \<le> PAGE_SIZE"
  shows "serializeNode ty node = Inr (leaf_image ty (keys node) (records node) (next_leaf node))"
proof -
  define header where
    "header = 1 # le_bytes 4 (type_code ty) @ le_bytes 8 (length (keys node))"
  have lh: "length header = 13"
    by (simp add: header_def)
  have k: "serialize_keys ty (keys node) header = Inr (header @ concat (map (enc ty) (keys node)))"
    using assms(2,4) by (intro serialize_keys_ok) (simp_all add: lh leaf_size_def)
  have u: "serialize_u64s (records node @ [next_leaf node]) (header @ concat (map (enc ty) (keys node))) =
      Inr ((header @ concat (map (enc ty) (keys node))) @ concat (map (le_bytes 8) (records node @ [next_leaf node])))"
    using assms(2,3,4)
    by (intro serialize_u64s_ok) (simp add: lh leaf_size_def length_concat_enc)
  have b: "(header @ concat (map (enc ty) (keys node))) @ concat (map (le_bytes 8) (records node @ [next_leaf node]))
      = leaf_body ty (keys node) (records node) (next_leaf node)"
    by (simp add: leaf_body_def header_def)
  have "serializeNode ty node =
      (case serialize_keys ty (keys node) header of
         Inl e \<Rightarrow> Inl e
       | Inr img \<Rightarrow>
           (case serialize_u64s (records node @ [next_leaf node]) img of
              Inl e \<Rightarrow> Inl e
            | Inr img' \<Rightarrow> Inr (img' @ zero_bytes (PAGE_SIZE - length img'))))"
    using assms(1) by (simp add: serializeNode_def Let_def header_def)
  also have "\<dots> = Inr (leaf_image ty (keys node) (records node) (next_leaf node))"
    by (simp only: k u b sum.case leaf_image_def)
  finally show ?thesis .
qed

lemma serializeNode_leaf_overflow:
  assumes "is_leaf node" and "\<forall>k \<in> set (keys node). has_type ty k"
    and "length (records node) = length (keys node)"
    and "leaf_size ty (length (keys node)) > PAGE_SIZE"
  shows "serializeNode ty node = Inl PageOverflow"
proof -
  define header where
    "header = 1 # le_bytes 4 (type_code ty) @ le_bytes 8 (length (keys node))"
  have lh: "length header = 13"
    by (simp add: header_def)
  have sn: "serializeNode ty node =
      (case serialize_keys ty (keys node) header of
         Inl e \<Rightarrow> Inl e
       | Inr img \<Rightarrow>
           (case serialize_u64s (records node @ [next_leaf node]) img of
              Inl e \<Rightarrow> Inl e
            | Inr img' \<Rightarrow> Inr (img' @ zero_bytes (PAGE_SIZE - length img'))))"
    using assms(1) by (simp add: serializeNode_def Let_def header_def)
  show ?thesis
  proof (cases "length header + length (keys node) * getRecordSize ty > PAGE_SIZE")
    case True
    have "serialize_keys ty (keys node) header = Inl PageOverflow"
      using assms(2) True by (intro serialize_keys_overflow) (simp_all add: lh PAGE_SIZE_def)
    then show ?thesis
      by (simp only: sn sum.case)
  next
    case False
    then have k: "serialize_keys ty (keys node) header = Inr (header @ concat (map (enc ty) (keys node)))"
      using assms(2) by (intro serialize_keys_ok) simp_all
    have "serialize_u64s (records node @ [next_leaf node]) (header @ concat (map (enc ty) (keys node))) =
        Inl PageOverflow"
      using assms(2,3,4) False
      by (intro serialize_u64s_overflow) (simp_all add: lh leaf_size_def length_concat_enc)
    with k show ?thesis
      by (simp only: sn sum.case)
  qed
qed

lemma serialize_keys_untyped:
  "\<not> (\<forall>k \<in> set ks. has_type ty k) \<Longrightarrow> \<exists>e. serialize_keys ty ks img = Inl e"
proof (induction ks arbitrary: img)
  case Nil
  then show ?case by simp
next
  case (Cons k ks)
  show ?case
  proof (cases "has_type ty k")
    case False
    then show ?thesis by (simp add: serializeValue_untyped)
  next
    case True
    with Cons.prems have "\<not> (\<forall>k \<in> set ks. has_type ty k)"
      by simp
    then have "\<exists>e. serialize_keys ty ks (img @ enc ty k) = Inl e"
      by (rule Cons.IH)
    then show ?thesis
      using True by (auto simp: serializeValue_typed)
  qed
qed

lemma serializeNode_untyped:
  assumes "\<not> (\<forall>k \<in> set (keys node). has_type ty k)"
  shows "\<exists>e. serializeNode ty node = Inl e"
proof -
  obtain e where "serialize_keys ty (keys node)
      ([if is_leaf node then 1 else 0] @ le_bytes 4 (type_code ty) @ le_bytes 8 (length (keys node))) = Inl e"
    using serialize_keys_untyped [OF assms] by blast
  then show ?thesis
    by (simp add: serializeNode_def Let_def)
qed

lemma deserializeNode_zero: "deserializeNode maxk (zero_bytes PAGE_SIZE) = Inr (new_BPlusTreeNode True)"
  by (simp add: deserializeNode_def zero_bytes_def list_all_iff)

lemma type_code_less: "type_code ty < 256 ^ 4"
  by (cases ty) simp_all

lemma deserializeNode_leaf_image:
  assumes typed: "\<forall>k \<in> set ks. has_type ty k" and len: "length rs = length ks"
    and size: "leaf_size ty (length ks) \<le> PAGE_SIZE"
    and maxk: "length ks \<le> maxk"
    and rs: "\<forall>r \<in> set rs. r < 2 ^ 64" and nl: "nl < 2 ^ 64"
  shows "deserializeNode maxk (leaf_image ty ks rs nl) = Inr (leaf_node (map stored ks) rs nl)"
proof -
  define n where "n = length ks"
  define header where "header = [1] @ le_bytes 4 (type_code ty) @ le_bytes 8 n"
  define kb where "kb = concat (map (enc ty) ks)"
  define ub where "ub = concat (map (le_bytes 8) (rs @ [nl]))"
  define pad where "pad = zero_bytes (PAGE_SIZE - length (leaf_body ty ks rs nl))"
  define img where "img = leaf_image ty ks rs nl"
  have img1: "img = header @ kb @ (ub @ pad)"
    by (simp add: img_def leaf_image_def leaf_body_def header_def kb_def ub_def pad_def n_def)
  have img2: "img = (header @ kb) @ ub @ pad"
    by (simp add: img1)
  have img3: "img = (1 # le_bytes 4 (type_code ty)) @ le_bytes 8 n @ (kb @ ub @ pad)"
    by (simp add: img1 header_def)
  have img4: "img = [1] @ le_bytes 4 (type_code ty) @ (le_bytes 8 n @ kb @ ub @ pad)"
    by (simp add: img1 header_def)
  have lh: "length header = 13"
    by (simp add: header_def)
  have lkb: "length kb = n * getRecordSize ty"
    using typed by (simp add: kb_def length_concat_enc n_def)
  have nsmall: "n < 256 ^ 8"
  proof -
    have "n \<le> PAGE_SIZE" using size by (simp add: leaf_size_def n_def)
    then show ?thesis by (simp add: PAGE_SIZE_def)
  qed
  have nz: "\<not> list_all (\<lambda>b. b = 0) (take PAGE_SIZE img)"
    by (simp add: img4 PAGE_SIZE_def)
  have leaf: "le_nat (take 1 img) \<noteq> 0"
    by (simp add: img4)
  have code: "le_nat (take 4 (drop 1 img)) = type_code ty"
    using type_code_less [of ty] by (simp add: img4 le_nat_le_bytes)
  have cnt: "le_nat (take 8 (drop 5 img)) = n"
    using nsmall by (simp add: img3 le_nat_le_bytes)
  have dk: "deserialize_keys img 13 (type_code ty) n = Inr (map stored ks, 13 + n * getRecordSize ty)"
    unfolding img1 kb_def n_def
    using deserialize_keys_at [OF typed, of header 13 "ub @ pad"] lh by simp
  have du: "deserialize_u64s img (13 + n * getRecordSize ty) (n + 1) =
      Inr (rs @ [nl], 13 + n * getRecordSize ty + 8 * (n + 1))"
  proof -
    have "\<forall>x \<in> set (rs @ [nl]). x < 2 ^ 64"
      using rs nl by simp
    moreover have "length (header @ kb) = 13 + n * getRecordSize ty"
      by (simp add: lh lkb)
    ultimately have "deserialize_u64s ((header @ kb) @ concat (map (le_bytes 8) (rs @ [nl])) @ pad)
        (13 + n * getRecordSize ty) (length (rs @ [nl])) =
        Inr (rs @ [nl], 13 + n * getRecordSize ty + 8 * length (rs @ [nl]))"
      by (rule deserialize_u64s_at)
    then show ?thesis
      using len by (simp add: img2 ub_def n_def)
  qed
  show ?thesis
    unfolding img_def [symmetric]
    using nz leaf code cnt dk du maxk len
    by (simp add: deserializeNode_def Let_def n_def [symmetric] leaf_node_def new_BPlusTreeNode_def)
qed

section \<open>Node operations on page contents\<close>

definition page_of :: "engine \<Rightarrow> string \<Rightarrow> PageId \<Rightarrow> byte list" where
  "page_of st f p = content (buffer_manager st) (f, p)"

definition eng_ok :: "engine \<Rightarrow> bool" where
  "eng_ok st \<longleftrightarrow> pool_ok (buffer_manager st)"

definition fetched :: "engine \<Rightarrow> string \<Rightarrow> PageId \<Rightarrow> engine" where
  "fetched st f p = st\<lparr>buffer_manager := snd (fetchPage (buffer_manager st) f p)\<rparr>"

definition written :: "engine \<Rightarrow> string \<Rightarrow> PageId \<Rightarrow> byte list \<Rightarrow> engine" where
  "written st f p d = st\<lparr>buffer_manager := write_page (buffer_manager st) f p d\<rparr>"

lemma eng_ok_new: "eng_ok new_engine"
  by (simp add: eng_ok_def new_engine_def pool_ok_new)

lemma page_of_new: "page_of new_engine f p = zero_bytes PAGE_SIZE"
  by (simp add: page_of_def new_engine_def content_new)

lemma fetched_facts:
  assumes "eng_ok st" and "p < PAGE_LIMIT"
  shows "eng_ok (fetched st f p)"
    and "\<And>f' p'. p' < PAGE_LIMIT \<Longrightarrow> page_of (fetched st f p) f' p' = page_of st f' p'"
    and "next_page_id (fetched st f p) = next_page_id st"
    and "data (fst (fetchPage (buffer_manager st) f p)) = page_of st f p"
  using fetchPage_ok [where bpm = "buffer_manager st" and p = p and f = f] assms
  by (simp_all add: eng_ok_def fetched_def page_of_def same_content_def)

lemma written_facts:
  assumes "eng_ok st" and "p < PAGE_LIMIT" and "length d = PAGE_SIZE"
  shows "eng_ok (written st f p d)"
    and "\<And>f' p'. p' < PAGE_LIMIT \<Longrightarrow>
           page_of (written st f p d) f' p' = (if f' = f \<and> p' = p then d else page_of st f' p')"
    and "next_page_id (written st f p d) = next_page_id st"
  using write_page_ok [where bpm = "buffer_manager st" and p = p and d = d and f = f] assms
  by (simp_all add: eng_ok_def written_def page_of_def)

lemma getNode_eq:
  assumes "eng_ok st" and "p < PAGE_LIMIT"
  shows "getNode idx p st =
     (case deserializeNode (max_keys idx) (page_of st (index_name idx) p) of
        Inl e \<Rightarrow> Inl e
      | Inr node \<Rightarrow> Inr (node, fetched st (index_name idx) p))"
  using fetched_facts(4) [OF assms, of "index_name idx"]
  by (simp add: getNode_def Let_def fetched_def split: sum.splits)

lemma saveNode_eq:
  "saveNode idx p node st =
     (if is_leaf node \<and> length (keys node) \<noteq> length (records node) then Inr st
      else if \<not> is_leaf node \<and> length (children node) \<noteq> length (keys node) + 1 then Inr st
      else (case serializeNode (key_type idx) node of
              Inl e \<Rightarrow> Inl e
            | Inr img \<Rightarrow> Inr (written st (index_name idx) p img)))"
  by (simp add: saveNode_def Let_def written_def write_page_def split: sum.splits)

lemma saveNode_leaf:
  assumes "\<forall>k \<in> set ks. has_type (key_type idx) k" and "length rs = length ks"
    and "leaf_size (key_type idx) (length ks) \<le> PAGE_SIZE"
  shows "saveNode idx p (leaf_node ks rs nl) st =
         Inr (written st (index_name idx) p (leaf_image (key_type idx) ks rs nl))"
  using assms serializeNode_leaf [of "leaf_node ks rs nl" "key_type idx"]
  by (simp add: saveNode_eq leaf_node_def)

lemma saveNode_leaf_overflow:
  assumes "\<forall>k \<in> set ks. has_type (key_type idx) k" and "length rs = length ks"
    and "leaf_size (key_type idx) (length ks) > PAGE_SIZE"
  shows "saveNode idx p (leaf_node ks rs nl) st = Inl PageOverflow"
  using assms serializeNode_leaf_overflow [of "leaf_node ks rs nl" "key_type idx"]
  by (simp add: saveNode_eq leaf_node_def)

text \<open>
  \<^verbatim>\<open>createNewNode(false)\<close> hands \<^verbatim>\<open>saveNode\<close> an internal node with no keys and no children,
  which \<^verbatim>\<open>saveNode\<close> refuses: the page id is taken and the page is not written.
\<close>

lemma createNewNode_internal:
  "createNewNode idx False st = Inr (next_page_id st, st\<lparr>next_page_id := next_page_id st + 1\<rparr>)"
  by (simp add: createNewNode_def Let_def saveNode_eq new_BPlusTreeNode_def)

lemma new_leaf_node: "new_BPlusTreeNode True = leaf_node [] [] 0"
  by (simp add: new_BPlusTreeNode_def leaf_node_def)

lemma leaf_size_0: "leaf_size ty 0 \<le> PAGE_SIZE"
  by (simp add: leaf_size_def PAGE_SIZE_def)

lemma createNewNode_leaf:
  "createNewNode idx True st =
     Inr (next_page_id st,
          written (st\<lparr>next_page_id := next_page_id st + 1\<rparr>) (index_name idx) (next_page_id st)
            (leaf_image (key_type idx) [] [] 0))"
  using saveNode_leaf [of "[]" idx "[]" "next_page_id st" 0 "st\<lparr>next_page_id := next_page_id st + 1\<rparr>"]
  by (simp add: createNewNode_def Let_def new_leaf_node leaf_size_0)

lemma eng_ok_npi [simp]: "eng_ok (st\<lparr>next_page_id := n\<rparr>) = eng_ok st"
  by (simp add: eng_ok_def)

lemma page_of_npi [simp]: "page_of (st\<lparr>next_page_id := n\<rparr>) = page_of st"
  by (rule ext)+ (simp add: page_of_def)

section \<open>The index while its root is a leaf\<close>

text \<open>
  \<open>idx_ok st idx kvs\<close>: the pages of the index file from \<open>next_page_id\<close> on are untouched,
  and the root page, if there is one, reads as the leaf holding the pairs \<open>kvs\<close>, keys as
  stored.
\<close>

definition idx_ok :: "engine \<Rightarrow> BPlusTreeIndex \<Rightarrow> (Value \<times> RecordId) list \<Rightarrow> bool" where
  "idx_ok st idx kvs \<longleftrightarrow>
     eng_ok st \<and> 0 < next_page_id st \<and> next_page_id st \<le> PAGE_LIMIT \<and>
     (\<forall>p. next_page_id st \<le> p \<and> p < PAGE_LIMIT \<longrightarrow>
          page_of st (index_name idx) p = zero_bytes PAGE_SIZE) \<and>
     (\<forall>kr \<in> set kvs. has_type (key_type idx) (fst kr) \<and> stored (fst kr) = fst kr \<and> snd kr < 2 ^ 64) \<and>
     (if root_page_id idx = 0 then kvs = []
      else root_page_id idx < next_page_id st \<and>
           deserializeNode (max_keys idx) (page_of st (index_name idx) (root_page_id idx)) =
             Inr (leaf_node (map fst kvs) (map snd kvs) 0))"

definition leaf_insert :: "(Value \<times> RecordId) list \<Rightarrow> Value \<Rightarrow> RecordId \<Rightarrow> (Value \<times> RecordId) list" where
  "leaf_insert kvs key rid = insert_at (lower_bound (map fst kvs) key) (stored key, rid) kvs"

text \<open>Changes confined to one file, with the page counter moving up by at most \<open>n\<close>.\<close>

definition only_file :: "string \<Rightarrow> nat \<Rightarrow> engine \<Rightarrow> engine \<Rightarrow> bool" where
  "only_file name n st st' \<longleftrightarrow>
     eng_ok st' \<and> next_page_id st \<le> next_page_id st' \<and> next_page_id st' \<le> next_page_id st + n \<and>
     (\<forall>f p. f \<noteq> name \<and> p < PAGE_LIMIT \<longrightarrow> page_of st' f p = page_of st f p)"

lemma stored_idem [simp]: "stored (stored v) = stored v"
proof (cases v)
  case (VString s)
  have "take 255 (takeWhile (\<lambda>c. c \<noteq> CHR 0x00) (take 255 s)) = takeWhile (\<lambda>c. c \<noteq> CHR 0x00) (take 255 s)"
    by (rule take_all) (rule order_trans [OF length_takeWhile_le], simp)
  then show ?thesis
    using VString by (simp add: takeWhile_idem)
qed simp_all

lemma has_type_stored [simp]: "has_type ty (stored v) = has_type ty v"
  by (cases v) (simp_all add: has_type_def)

lemma map_insert_at: "map f (insert_at i x xs) = insert_at i (f x) (map f xs)"
  by (simp add: insert_at_def take_map drop_map)

lemma length_insert_at [simp]: "length (insert_at i x xs) = Suc (length xs)"
  by (simp add: insert_at_def)

lemma set_insert_at: "set (insert_at i x xs) = insert x (set xs)"
proof -
  have "set (take i xs) \<union> set (drop i xs) = set xs"
    by (metis append_take_drop_id set_append)
  then show ?thesis by (auto simp: insert_at_def)
qed

lemma insertIntoLeaf_leaf_node:
  assumes "length rs = length ks"
  shows "insertIntoLeaf (leaf_node ks rs nl) key rid =
         leaf_node (insert_at (lower_bound ks key) key ks) (insert_at (lower_bound ks key) rid rs) nl"
  using assms by (simp add: insertIntoLeaf_def leaf_node_def Let_def)

lemma leaf_node_sel [simp]:
  "is_leaf (leaf_node ks rs nl)" "keys (leaf_node ks rs nl) = ks"
  "records (leaf_node ks rs nl) = rs" "next_leaf (leaf_node ks rs nl) = nl"
  "children (leaf_node ks rs nl) = []"
  by (simp_all add: leaf_node_def)

lemma idx_okD:
  assumes "idx_ok st idx kvs"
  shows "eng_ok st" and "0 < next_page_id st"
    and "\<And>p. next_page_id st \<le> p \<Longrightarrow> p < PAGE_LIMIT \<Longrightarrow>
           page_of st (index_name idx) p = zero_bytes PAGE_SIZE"
    and "\<And>kr. kr \<in> set kvs \<Longrightarrow> has_type (key_type idx) (fst kr)"
    and "\<And>kr. kr \<in> set kvs \<Longrightarrow> stored (fst kr) = fst kr"
    and "\<And>kr. kr \<in> set kvs \<Longrightarrow> snd kr < 2 ^ 64"
    and "root_page_id idx = 0 \<Longrightarrow> kvs = []"
    and "root_page_id idx \<noteq> 0 \<Longrightarrow> root_page_id idx < next_page_id st"
    and "root_page_id idx \<noteq> 0 \<Longrightarrow>
           deserializeNode (max_keys idx) (page_of st (index_name idx) (root_page_id idx)) =
             Inr (leaf_node (map fst kvs) (map snd kvs) 0)"
    and "next_page_id st \<le> PAGE_LIMIT"
  using assms unfolding idx_ok_def by (auto split: if_splits)

lemma idx_okI:
  assumes "eng_ok st" and "0 < next_page_id st"
    and "\<And>p. next_page_id st \<le> p \<Longrightarrow> p < PAGE_LIMIT \<Longrightarrow>
           page_of st (index_name idx) p = zero_bytes PAGE_SIZE"
    and "\<And>kr. kr \<in> set kvs \<Longrightarrow>
           has_type (key_type idx) (fst kr) \<and> stored (fst kr) = fst kr \<and> snd kr < 2 ^ 64"
    and "root_page_id idx \<noteq> 0" and "root_page_id idx < next_page_id st"
    and "deserializeNode (max_keys idx) (page_of st (index_name idx) (root_page_id idx)) =
             Inr (leaf_node (map fst kvs) (map snd kvs) 0)"
    and "next_page_id st \<le> PAGE_LIMIT"
  shows "idx_ok st idx kvs"
  using assms unfolding idx_ok_def by auto

lemma only_file_refl: "eng_ok st \<Longrightarrow> only_file name n st st"
  by (simp add: only_file_def)

lemma only_file_trans:
  "only_file name n st st1 \<Longrightarrow> only_file name m st1 st2 \<Longrightarrow> only_file name (n + m) st st2"
  by (auto simp: only_file_def)

lemma only_file_mono: "only_file name n st st' \<Longrightarrow> n \<le> m \<Longrightarrow> only_file name m st st'"
  by (auto simp: only_file_def)

lemma only_file_fetched:
  "eng_ok st \<Longrightarrow> p < PAGE_LIMIT \<Longrightarrow> only_file name 0 st (fetched st f p)"
  by (simp add: only_file_def fetched_facts)

lemma only_file_written:
  "eng_ok st \<Longrightarrow> p < PAGE_LIMIT \<Longrightarrow> length d = PAGE_SIZE \<Longrightarrow>
   only_file name 0 st (written st name p d)"
  by (simp add: only_file_def written_facts)

lemma ensure_root_ok:
  assumes inv: "idx_ok st idx kvs" and budget: "next_page_id st < PAGE_LIMIT"
  shows "\<exists>r st1. ensure_root idx st = Inr (idx\<lparr>root_page_id := r\<rparr>, st1) \<and> r \<noteq> 0 \<and>
           idx_ok st1 (idx\<lparr>root_page_id := r\<rparr>) kvs \<and> only_file (index_name idx) 1 st st1"
proof (cases "root_page_id idx = 0")
  case False
  then have "ensure_root idx st = Inr (idx\<lparr>root_page_id := root_page_id idx\<rparr>, st)"
    by (simp add: ensure_root_def)
  moreover have "only_file (index_name idx) 1 st st"
    using idx_okD(1) [OF inv] by (rule only_file_refl)
  ultimately show ?thesis
    using False inv by (intro exI [of _ "root_page_id idx"] exI [of _ st]) simp
next
  case True
  define ty where "ty = key_type idx"
  define name where "name = index_name idx"
  define n where "n = next_page_id st"
  define img where "img = leaf_image ty [] [] 0"
  define st0 where "st0 = st\<lparr>next_page_id := n + 1\<rparr>"
  define st1 where "st1 = written st0 name n img"
  define idx1 where "idx1 = idx\<lparr>root_page_id := n\<rparr>"
  note o = idx_okD [OF inv]
  have kv: "kvs = []" using o(7) True by simp
  have li: "length img = PAGE_SIZE"
    unfolding img_def by (rule length_leaf_image) (simp_all add: leaf_size_0)
  have ok0: "eng_ok st0" using o(1) by (simp add: st0_def)
  have nl: "n < PAGE_LIMIT" using budget by (simp add: n_def)
  note w = written_facts [OF ok0 nl li, where f = name, folded st1_def]
  have er: "ensure_root idx st = Inr (idx1, st1)"
    using True
    by (simp add: ensure_root_def createNewNode_leaf idx1_def st1_def st0_def n_def img_def
        ty_def name_def)
  have des: "deserializeNode (max_keys idx) img = Inr (leaf_node [] [] 0)"
    unfolding img_def
    using deserializeNode_leaf_image [of "[]" ty "[]" "max_keys idx" 0]
    by (simp add: leaf_size_0)
  have "idx_ok st1 idx1 kvs"
  proof (rule idx_okI)
    show "eng_ok st1" by (rule w(1))
    show "0 < next_page_id st1" by (simp add: w(3) st0_def)
    show "page_of st1 (index_name idx1) p = zero_bytes PAGE_SIZE"
      if "next_page_id st1 \<le> p" "p < PAGE_LIMIT" for p
    proof -
      have "n < p" using that(1) by (simp add: w(3) st0_def)
      then have "page_of st1 name p = page_of st name p"
        using that(2) by (simp add: w(2) st0_def)
      moreover have "page_of st name p = zero_bytes PAGE_SIZE"
        using o(3) [of p] \<open>n < p\<close> that(2) by (simp add: n_def name_def)
      ultimately show ?thesis by (simp add: idx1_def name_def)
    qed
    show "has_type (key_type idx1) (fst kr) \<and> stored (fst kr) = fst kr \<and> snd kr < 2 ^ 64"
      if "kr \<in> set kvs" for kr
      using that kv by simp
    show "root_page_id idx1 \<noteq> 0" using o(2) by (simp add: idx1_def n_def)
    show "root_page_id idx1 < next_page_id st1" by (simp add: idx1_def w(3) st0_def)
    show "deserializeNode (max_keys idx1) (page_of st1 (index_name idx1) (root_page_id idx1)) =
          Inr (leaf_node (map fst kvs) (map snd kvs) 0)"
      using des nl by (simp add: idx1_def name_def [symmetric] w(2) kv)
    show "next_page_id st1 \<le> PAGE_LIMIT"
      using nl by (simp add: w(3) st0_def)
  qed
  moreover have "only_file (index_name idx) 1 st st1"
    unfolding only_file_def
    using w nl by (simp add: st0_def name_def n_def)
  moreover have "n \<noteq> 0" using o(2) by (simp add: n_def)
  ultimately show ?thesis
    using er unfolding idx1_def by blast
qed

lemma getNode_root:
  assumes inv: "idx_ok st idx kvs" and root: "root_page_id idx \<noteq> 0"
    and budget: "next_page_id st \<le> PAGE_LIMIT"
  shows "getNode idx (root_page_id idx) st =
         Inr (leaf_node (map fst kvs) (map snd kvs) 0, fetched st (index_name idx) (root_page_id idx))"
proof -
  have "root_page_id idx < PAGE_LIMIT"
    using idx_okD(8) [OF inv root] budget by simp
  then show ?thesis
    using idx_okD(1) [OF inv] idx_okD(9) [OF inv root] by (simp add: getNode_eq)
qed

lemma typed_insert_at:
  assumes "\<forall>kr \<in> set kvs. has_type ty (fst kr)" and "has_type ty key"
  shows "\<forall>k \<in> set (insert_at i key (map fst kvs)). has_type ty k"
  using assms by (auto simp: set_insert_at)

lemma leaf_insert_fst:
  assumes "\<forall>kr \<in> set kvs. stored (fst kr) = fst kr"
  shows "map stored (insert_at (lower_bound (map fst kvs) key) key (map fst kvs)) =
         map fst (leaf_insert kvs key rid)"
proof -
  define i where "i = lower_bound (map fst kvs) key"
  have h: "map (stored \<circ> fst) kvs = map fst kvs"
    using assms by (induction kvs) simp_all
  have "map stored (insert_at i key (map fst kvs)) = insert_at i (stored key) (map (stored \<circ> fst) kvs)"
    by (simp add: map_insert_at)
  also have "\<dots> = insert_at i (stored key) (map fst kvs)"
    by (simp only: h)
  also have "\<dots> = map fst (leaf_insert kvs key rid)"
    by (simp add: leaf_insert_def map_insert_at i_def)
  finally show ?thesis
    by (simp only: i_def)
qed

lemma leaf_insert_snd:
  "insert_at (lower_bound (map fst kvs) key) rid (map snd kvs) = map snd (leaf_insert kvs key rid)"
  by (simp add: leaf_insert_def map_insert_at)

lemma insertInternal_leaf:
  assumes inv: "idx_ok st idx kvs" and root: "root_page_id idx \<noteq> 0"
    and budget: "next_page_id st \<le> PAGE_LIMIT"
    and typed: "has_type (key_type idx) key" and rid: "rid < 2 ^ 64"
    and room: "length kvs < max_keys idx"
    and size: "leaf_size (key_type idx) (Suc (length kvs)) \<le> PAGE_SIZE"
  shows "\<exists>st'. insertInternal idx (root_page_id idx) key rid st = Some (Inr (no_split, st')) \<and>
           idx_ok st' idx (leaf_insert kvs key rid) \<and> only_file (index_name idx) 0 st st'"
proof -
  define ty where "ty = key_type idx"
  define name where "name = index_name idx"
  define r where "r = root_page_id idx"
  define ks where "ks = map fst kvs"
  define rs where "rs = map snd kvs"
  define i where "i = lower_bound ks key"
  define ks' where "ks' = insert_at i key ks"
  define rs' where "rs' = insert_at i rid rs"
  define img where "img = leaf_image ty ks' rs' 0"
  define st1 where "st1 = fetched st name r"
  define st2 where "st2 = written st1 name r img"
  note o = idx_okD [OF inv]
  have rl: "r < PAGE_LIMIT" and rn: "r < next_page_id st"
    using o(8) [OF root] budget by (simp_all add: r_def)
  note f = fetched_facts [OF o(1) rl, where f = name, folded st1_def]
  have typed': "\<forall>k \<in> set ks'. has_type ty k"
    unfolding ks'_def ks_def ty_def using o(4) typed by (intro typed_insert_at) auto
  have len': "length rs' = length ks'" and lk: "length ks' = Suc (length kvs)"
    by (simp_all add: rs'_def ks'_def rs_def ks_def)
  have size': "leaf_size ty (length ks') \<le> PAGE_SIZE"
    using size by (simp add: lk ty_def)
  have li: "length img = PAGE_SIZE"
    unfolding img_def by (rule length_leaf_image [OF typed' len' size'])
  note w = written_facts [OF f(1) rl li, where f = name, folded st2_def]
  have gn: "getNode idx r st = Inr (leaf_node ks rs 0, st1)"
    using getNode_root [OF inv root budget] by (simp add: r_def ks_def rs_def st1_def name_def)
  have il: "insertIntoLeaf (leaf_node ks rs 0) key rid = leaf_node ks' rs' 0"
    by (simp add: insertIntoLeaf_leaf_node ks_def rs_def ks'_def rs'_def i_def)
  have sv: "saveNode idx r (leaf_node ks' rs' 0) st1 = Inr st2"
    using saveNode_leaf [of ks' idx rs' r 0 st1] typed' len' size'
    by (simp add: ty_def st2_def img_def name_def)
  have ii: "insertInternal idx r key rid st = Some (Inr (no_split, st2))"
    using room
    by (subst insertInternal.simps) (simp add: gn il lk save_unsplit_def sv)
  have des: "deserializeNode (max_keys idx) img = Inr (leaf_node (map stored ks') rs' 0)"
    unfolding img_def
  proof (rule deserializeNode_leaf_image [OF typed' len' size'])
    show "length ks' \<le> max_keys idx" using room by (simp add: lk)
    show "\<forall>r \<in> set rs'. r < 2 ^ 64"
      using o(6) rid by (auto simp: rs'_def rs_def set_insert_at)
    show "(0::nat) < 2 ^ 64" by simp
  qed
  have "idx_ok st2 idx (leaf_insert kvs key rid)"
  proof (rule idx_okI)
    show "eng_ok st2" by (rule w(1))
    show "0 < next_page_id st2" using o(2) by (simp add: w(3) f(3))
    show "page_of st2 (index_name idx) p = zero_bytes PAGE_SIZE"
      if "next_page_id st2 \<le> p" "p < PAGE_LIMIT" for p
    proof -
      have "next_page_id st \<le> p" using that(1) by (simp add: w(3) f(3))
      moreover from this have "p \<noteq> r" using rn by simp
      ultimately show ?thesis
        using that(2) o(3) [of p] by (simp add: name_def [symmetric] w(2) f(2))
    qed
    show "has_type (key_type idx) (fst kr) \<and> stored (fst kr) = fst kr \<and> snd kr < 2 ^ 64"
      if "kr \<in> set (leaf_insert kvs key rid)" for kr
    proof -
      from that have "kr = (stored key, rid) \<or> kr \<in> set kvs"
        by (auto simp: leaf_insert_def set_insert_at)
      then show ?thesis
        using o(4,5,6) [of kr] typed rid by auto
    qed
    show "root_page_id idx \<noteq> 0" by (rule root)
    show "root_page_id idx < next_page_id st2" using rn by (simp add: w(3) f(3) r_def)
    have "map stored ks' = map fst (leaf_insert kvs key rid)"
      unfolding ks'_def i_def ks_def using o(5) by (intro leaf_insert_fst) simp
    moreover have "rs' = map snd (leaf_insert kvs key rid)"
      unfolding rs'_def i_def ks_def rs_def by (rule leaf_insert_snd)
    ultimately show "deserializeNode (max_keys idx) (page_of st2 (index_name idx) (root_page_id idx)) =
          Inr (leaf_node (map fst (leaf_insert kvs key rid)) (map snd (leaf_insert kvs key rid)) 0)"
      using des rl by (simp add: name_def [symmetric] r_def [symmetric] w(2))
    show "next_page_id st2 \<le> PAGE_LIMIT"
      using budget by (simp add: w(3) f(3))
  qed
  moreover have "only_file (index_name idx) 0 st st2"
    unfolding only_file_def
    using w f rl by (simp add: name_def)
  ultimately show ?thesis
    using ii unfolding r_def by blast
qed

text \<open>
  A string leaf has room for fifteen keys of 256 bytes: the sixteenth makes \<^verbatim>\<open>saveNode\<close> run
  past the page.
\<close>

lemma insertInternal_leaf_overflow:
  assumes inv: "idx_ok st idx kvs" and root: "root_page_id idx \<noteq> 0"
    and budget: "next_page_id st \<le> PAGE_LIMIT"
    and typed: "has_type (key_type idx) key"
    and room: "length kvs < max_keys idx"
    and size: "leaf_size (key_type idx) (Suc (length kvs)) > PAGE_SIZE"
  shows "insertInternal idx (root_page_id idx) key rid st = Some (Inl PageOverflow)"
proof -
  define ks where "ks = map fst kvs"
  define rs where "rs = map snd kvs"
  define i where "i = lower_bound ks key"
  define ks' where "ks' = insert_at i key ks"
  define rs' where "rs' = insert_at i rid rs"
  define st1 where "st1 = fetched st (index_name idx) (root_page_id idx)"
  note o = idx_okD [OF inv]
  have typed': "\<forall>k \<in> set ks'. has_type (key_type idx) k"
    unfolding ks'_def ks_def using o(4) typed by (intro typed_insert_at) auto
  have len': "length rs' = length ks'" and lk: "length ks' = Suc (length kvs)"
    by (simp_all add: rs'_def ks'_def rs_def ks_def)
  have gn: "getNode idx (root_page_id idx) st = Inr (leaf_node ks rs 0, st1)"
    using getNode_root [OF inv root budget] by (simp add: ks_def rs_def st1_def)
  have il: "insertIntoLeaf (leaf_node ks rs 0) key rid = leaf_node ks' rs' 0"
    by (simp add: insertIntoLeaf_leaf_node ks_def rs_def ks'_def rs'_def i_def)
  have sv: "saveNode idx (root_page_id idx) (leaf_node ks' rs' 0) st1 = Inl PageOverflow"
    using saveNode_leaf_overflow [of ks' idx rs' "root_page_id idx" 0 st1] typed' len' size
    by (simp add: lk)
  show ?thesis
    using room
    by (subst insertInternal.simps) (simp add: gn il lk save_unsplit_def sv)
qed

lemma leaf_node_update [simp]:
  "(leaf_node ks rs nl)\<lparr>keys := a, records := b, next_leaf := c\<rparr> = leaf_node a b c"
  by (simp add: leaf_node_def)

lemma leaf_size_mono: "m \<le> n \<Longrightarrow> leaf_size ty m \<le> leaf_size ty n"
  by (simp add: leaf_size_def add_le_mono)

text \<open>
  The insert that finds the root leaf full: the leaf is split into the root page and a new
  page, and the promoted key and the new page id are returned.
\<close>

lemma insertInternal_split:
  assumes inv: "idx_ok st idx kvs" and root: "root_page_id idx \<noteq> 0"
    and budget: "next_page_id st < PAGE_LIMIT"
    and typed: "has_type (key_type idx) key" and rid: "rid < 2 ^ 64"
    and full: "length kvs = max_keys idx" and pos: "0 < max_keys idx"
    and size: "leaf_size (key_type idx) (length kvs) \<le> PAGE_SIZE"
  shows "\<exists>k st'. insertInternal idx (root_page_id idx) key rid st =
             Some (Inr ((k, next_page_id st), st')) \<and>
           eng_ok st' \<and> next_page_id st' = next_page_id st + 1 \<and>
           (\<forall>p. next_page_id st' \<le> p \<and> p < PAGE_LIMIT \<longrightarrow>
                page_of st' (index_name idx) p = zero_bytes PAGE_SIZE) \<and>
           only_file (index_name idx) 1 st st' \<and>
           deserializeNode (max_keys idx) (page_of st' (index_name idx) (root_page_id idx)) =
             Inr (leaf_node (take (Suc (length kvs) div 2) (map fst (leaf_insert kvs key rid)))
                            (take (Suc (length kvs) div 2) (map snd (leaf_insert kvs key rid)))
                            (next_page_id st)) \<and>
           deserializeNode (max_keys idx) (page_of st' (index_name idx) (next_page_id st)) =
             Inr (leaf_node (drop (Suc (length kvs) div 2) (map fst (leaf_insert kvs key rid)))
                            (drop (Suc (length kvs) div 2) (map snd (leaf_insert kvs key rid))) 0)"
proof -
  define ty where "ty = key_type idx"
  define name where "name = index_name idx"
  define r where "r = root_page_id idx"
  define n where "n = length kvs"
  define p1 where "p1 = next_page_id st"
  define ks where "ks = map fst kvs"
  define rs where "rs = map snd kvs"
  define i where "i = lower_bound ks key"
  define ks' where "ks' = insert_at i key ks"
  define rs' where "rs' = insert_at i rid rs"
  define mid where "mid = Suc n div 2"
  define img0 where "img0 = leaf_image ty [] [] 0"
  define imgL where "imgL = leaf_image ty (take mid ks') (take mid rs') p1"
  define imgR where "imgR = leaf_image ty (drop mid ks') (drop mid rs') 0"
  define st1 where "st1 = fetched st name r"
  define st2 where "st2 = written (st1\<lparr>next_page_id := p1 + 1\<rparr>) name p1 img0"
  define st3 where "st3 = fetched st2 name p1"
  define st4 where "st4 = written st3 name r imgL"
  define st5 where "st5 = written st4 name p1 imgR"
  note o = idx_okD [OF inv]
  have rn: "r < p1" and rl: "r < PAGE_LIMIT" and pl: "p1 < PAGE_LIMIT"
    using o(8) [OF root] budget by (simp_all add: r_def p1_def)
  have npos: "0 < n" using full pos by (simp add: n_def)
  have mid_le: "mid \<le> n" and mid_lt: "mid < Suc n"
    using npos by (simp_all add: mid_def)
  have typed': "\<forall>k \<in> set ks'. has_type ty k"
    unfolding ks'_def ks_def ty_def using o(4) typed by (intro typed_insert_at) auto
  have lk: "length ks' = Suc n" and lr: "length rs' = Suc n"
    by (simp_all add: rs'_def ks'_def rs_def ks_def n_def)
  have typedL: "\<forall>k \<in> set (take mid ks'). has_type ty k"
    using typed' by (meson in_set_takeD)
  have typedR: "\<forall>k \<in> set (drop mid ks'). has_type ty k"
    using typed' by (meson in_set_dropD)
  have lenL: "length (take mid rs') = length (take mid ks')"
    and lenR: "length (drop mid rs') = length (drop mid ks')"
    by (simp_all add: lk lr)
  have sizeL: "leaf_size ty (length (take mid ks')) \<le> PAGE_SIZE"
    using leaf_size_mono [of "length (take mid ks')" n ty] size mid_le
    by (simp add: lk ty_def n_def)
  have right_le: "Suc n - mid \<le> n"
    using npos unfolding mid_def by arith
  then have "leaf_size ty (Suc n - mid) \<le> leaf_size ty n"
    by (rule leaf_size_mono)
  then have sizeR: "leaf_size ty (length (drop mid ks')) \<le> PAGE_SIZE"
    using size by (simp add: lk ty_def n_def)
  have l0: "length img0 = PAGE_SIZE"
    unfolding img0_def by (rule length_leaf_image) (simp_all add: leaf_size_0)
  have lL: "length imgL = PAGE_SIZE"
    unfolding imgL_def by (rule length_leaf_image [OF typedL lenL sizeL])
  have lR: "length imgR = PAGE_SIZE"
    unfolding imgR_def by (rule length_leaf_image [OF typedR lenR sizeR])
  note f1 = fetched_facts [OF o(1) rl, where f = name, folded st1_def]
  have ok1': "eng_ok (st1\<lparr>next_page_id := p1 + 1\<rparr>)" using f1(1) by simp
  note w2 = written_facts [OF ok1' pl l0, where f = name, folded st2_def]
  note f3 = fetched_facts [OF w2(1) pl, where f = name, folded st3_def]
  note w4 = written_facts [OF f3(1) rl lL, where f = name, folded st4_def]
  note w5 = written_facts [OF w4(1) pl lR, where f = name, folded st5_def]
  have gn: "getNode idx r st = Inr (leaf_node ks rs 0, st1)"
    using getNode_root [OF inv root] budget
    by (simp add: r_def ks_def rs_def st1_def name_def)
  have il: "insertIntoLeaf (leaf_node ks rs 0) key rid = leaf_node ks' rs' 0"
    by (simp add: insertIntoLeaf_leaf_node ks_def rs_def ks'_def rs'_def i_def)
  have cn: "createNewNode idx True st1 = Inr (p1, st2)"
    by (simp add: createNewNode_leaf f1(3) p1_def [symmetric] st2_def name_def ty_def img0_def)
  have des0: "deserializeNode (max_keys idx) img0 = Inr (leaf_node [] [] 0)"
    unfolding img0_def
    using deserializeNode_leaf_image [of "[]" ty "[]" "max_keys idx" 0]
    by (simp add: leaf_size_0)
  have gn2: "getNode idx p1 st2 = Inr (leaf_node [] [] 0, st3)"
    using des0 pl by (simp add: getNode_eq [OF w2(1) pl] name_def [symmetric] w2(2) st3_def)
  have svL: "saveNode idx r (leaf_node (take mid ks') (take mid rs') p1) st3 = Inr st4"
    using saveNode_leaf [of "take mid ks'" idx "take mid rs'" r p1 st3] typedL lenL sizeL
    by (simp add: ty_def st4_def imgL_def name_def)
  have svR: "saveNode idx p1 (leaf_node (drop mid ks') (drop mid rs') 0) st4 = Inr st5"
    using saveNode_leaf [of "drop mid ks'" idx "drop mid rs'" p1 0 st4] typedR lenR sizeR
    by (simp add: ty_def st5_def imgR_def name_def)
  obtain k rest where dk: "drop mid ks' = k # rest"
    using mid_lt lk by (cases "drop mid ks'") simp_all
  have sl: "splitLeaf idx r (leaf_node ks' rs' 0) st1 = Inr ((k, p1), st5)"
    using mid_le
    by (simp add: splitLeaf_def Let_def cn gn2 lk lr mid_def [symmetric] svL svR) (simp add: dk)
  have ii: "insertInternal idx r key rid st = Some (Inr ((k, p1), st5))"
    using full
    by (subst insertInternal.simps) (simp add: gn il lk n_def [symmetric] sl)
  have np5: "next_page_id st5 = p1 + 1"
    by (simp add: w5(3) w4(3) f3(3) w2(3))
  have pg5: "page_of st5 name p =
      (if p = p1 then imgR else if p = r then imgL else page_of st name p)"
    if "p < PAGE_LIMIT" for p
    using that by (simp add: w5(2) w4(2) f3(2) w2(2) f1(2))
  have other5: "page_of st5 f p = page_of st f p" if "f \<noteq> name" "p < PAGE_LIMIT" for f p
    using that by (simp add: w5(2) w4(2) f3(2) w2(2) f1(2))
  have zero5: "page_of st5 name p = zero_bytes PAGE_SIZE"
    if "next_page_id st5 \<le> p" "p < PAGE_LIMIT" for p
  proof -
    have lt: "p1 < p" using that(1) by (simp add: np5)
    then have "page_of st5 name p = page_of st name p"
      using that(2) rn by (simp add: pg5)
    moreover have "page_of st name p = zero_bytes PAGE_SIZE"
      using o(3) [of p] lt that(2) by (simp add: name_def p1_def)
    ultimately show ?thesis by simp
  qed
  have rsb: "\<forall>x \<in> set rs'. x < 2 ^ 64"
    using o(6) rid by (auto simp: rs'_def rs_def set_insert_at)
  have st_eq: "map stored ks' = map fst (leaf_insert kvs key rid)"
    unfolding ks'_def i_def ks_def using o(5) by (intro leaf_insert_fst) simp
  have rs_eq: "rs' = map snd (leaf_insert kvs key rid)"
    unfolding rs'_def i_def ks_def rs_def by (rule leaf_insert_snd)
  have desL: "deserializeNode (max_keys idx) imgL =
      Inr (leaf_node (map stored (take mid ks')) (take mid rs') p1)"
    unfolding imgL_def
  proof (rule deserializeNode_leaf_image [OF typedL lenL sizeL])
    show "length (take mid ks') \<le> max_keys idx"
      using mid_le full by (simp add: lk n_def)
    show "\<forall>r \<in> set (take mid rs'). r < 2 ^ 64"
      using rsb by (meson in_set_takeD)
    show "p1 < 2 ^ 64" using pl by (simp add: PAGE_LIMIT_def)
  qed
  have desR: "deserializeNode (max_keys idx) imgR =
      Inr (leaf_node (map stored (drop mid ks')) (drop mid rs') 0)"
    unfolding imgR_def
  proof (rule deserializeNode_leaf_image [OF typedR lenR sizeR])
    show "length (drop mid ks') \<le> max_keys idx"
      using full right_le by (simp add: lk n_def)
    show "\<forall>r \<in> set (drop mid rs'). r < 2 ^ 64"
      using rsb by (meson in_set_dropD)
    show "(0::nat) < 2 ^ 64" by simp
  qed
  have "only_file name 1 st st5"
    unfolding only_file_def using w5(1) other5 by (simp add: np5 p1_def)
  moreover have "deserializeNode (max_keys idx) (page_of st5 name r) =
      Inr (leaf_node (take mid (map fst (leaf_insert kvs key rid)))
                     (take mid (map snd (leaf_insert kvs key rid))) p1)"
    using desL rl rn by (simp add: pg5 take_map [symmetric] st_eq [symmetric] rs_eq [symmetric])
  moreover have "deserializeNode (max_keys idx) (page_of st5 name p1) =
      Inr (leaf_node (drop mid (map fst (leaf_insert kvs key rid)))
                     (drop mid (map snd (leaf_insert kvs key rid))) 0)"
    using desR pl by (simp add: pg5 drop_map [symmetric] st_eq [symmetric] rs_eq [symmetric])
  ultimately show ?thesis
    using ii w5(1) np5 zero5
    unfolding r_def name_def p1_def mid_def n_def by blast
qed

lemma insert_new_root_lost:
  assumes ok: "eng_ok st" and budget: "next_page_id st < PAGE_LIMIT"
    and zero: "page_of st (index_name idx) (next_page_id st) = zero_bytes PAGE_SIZE"
  shows "insert_new_root idx res st =
         Inr (idx\<lparr>root_page_id := next_page_id st\<rparr>,
              fetched (st\<lparr>next_page_id := next_page_id st + 1\<rparr>) (index_name idx) (next_page_id st))"
proof -
  define st1 where "st1 = st\<lparr>next_page_id := Suc (next_page_id st)\<rparr>"
  have ok1: "eng_ok st1" using ok by (simp add: st1_def)
  have "page_of st1 (index_name idx) (next_page_id st) = zero_bytes PAGE_SIZE"
    using zero by (simp add: st1_def)
  then have gn: "getNode idx (next_page_id st) st1 =
      Inr (new_BPlusTreeNode True, fetched st1 (index_name idx) (next_page_id st))"
    by (simp add: getNode_eq [OF ok1 budget] deserializeNode_zero)
  show ?thesis
    by (simp add: insert_new_root_def createNewNode_internal st1_def [symmetric] gn
        saveNode_eq new_BPlusTreeNode_def)
qed

lemma idx_ok_cong:
  assumes inv: "idx_ok st idx kvs" and ok: "eng_ok st'"
    and npi: "next_page_id st' = next_page_id st"
    and same: "\<And>p. p < PAGE_LIMIT \<Longrightarrow> page_of st' (index_name idx) p = page_of st (index_name idx) p"
  shows "idx_ok st' idx kvs"
proof (cases "root_page_id idx = 0")
  case True
  then show ?thesis
    using inv ok npi same unfolding idx_ok_def by simp
next
  case False
  note o = idx_okD [OF inv]
  have "root_page_id idx < PAGE_LIMIT"
    using o(8) [OF False] o(10) by simp
  then show ?thesis
    using inv ok npi same False unfolding idx_ok_def by simp
qed

lemma idx_ok_only_file:
  assumes inv: "idx_ok st idx kvs" and other: "only_file name 0 st st'"
    and diff: "name \<noteq> index_name idx"
  shows "idx_ok st' idx kvs"
  using other diff by (intro idx_ok_cong [OF inv]) (auto simp: only_file_def)

lemma insert_idx_room:
  assumes inv: "idx_ok st idx kvs" and budget: "next_page_id st < PAGE_LIMIT"
    and typed: "has_type (key_type idx) key" and rid: "rid < 2 ^ 64"
    and room: "length kvs < max_keys idx"
    and size: "leaf_size (key_type idx) (Suc (length kvs)) \<le> PAGE_SIZE"
  shows "\<exists>r st'. insert_idx idx key rid st = Some (Inr (idx\<lparr>root_page_id := r\<rparr>, st')) \<and> r \<noteq> 0 \<and>
           idx_ok st' (idx\<lparr>root_page_id := r\<rparr>) (leaf_insert kvs key rid) \<and>
           only_file (index_name idx) 1 st st'"
proof -
  obtain r st1 where er: "ensure_root idx st = Inr (idx\<lparr>root_page_id := r\<rparr>, st1)"
    and r0: "r \<noteq> 0" and inv1: "idx_ok st1 (idx\<lparr>root_page_id := r\<rparr>) kvs"
    and of1: "only_file (index_name idx) 1 st st1"
    using ensure_root_ok [OF inv budget] by blast
  define idx1 where "idx1 = idx\<lparr>root_page_id := r\<rparr>"
  have b1: "next_page_id st1 \<le> PAGE_LIMIT"
    using idx_okD(10) [OF inv1] .
  obtain st2 where ii: "insertInternal idx1 (root_page_id idx1) key rid st1 = Some (Inr (no_split, st2))"
    and inv2: "idx_ok st2 idx1 (leaf_insert kvs key rid)"
    and of2: "only_file (index_name idx1) 0 st1 st2"
    using insertInternal_leaf [of st1 idx1 kvs key rid] inv1 r0 b1 typed rid room size
    by (auto simp: idx1_def)
  have "insert_idx idx key rid st = Some (Inr (idx1, st2))"
    using ii by (simp add: insert_idx_def er idx1_def [symmetric] no_split_def)
  moreover have "only_file (index_name idx) 1 st st2"
    using only_file_trans [OF of1, of 0 st2] of2 by (simp add: idx1_def)
  ultimately show ?thesis
    using r0 inv2 unfolding idx1_def by blast
qed

lemma insert_idx_overflow:
  assumes inv: "idx_ok st idx kvs" and budget: "next_page_id st < PAGE_LIMIT"
    and typed: "has_type (key_type idx) key"
    and room: "length kvs < max_keys idx"
    and size: "leaf_size (key_type idx) (Suc (length kvs)) > PAGE_SIZE"
  shows "insert_idx idx key rid st = Some (Inl PageOverflow)"
proof -
  obtain r st1 where er: "ensure_root idx st = Inr (idx\<lparr>root_page_id := r\<rparr>, st1)"
    and r0: "r \<noteq> 0" and inv1: "idx_ok st1 (idx\<lparr>root_page_id := r\<rparr>) kvs"
    using ensure_root_ok [OF inv budget] by blast
  define idx1 where "idx1 = idx\<lparr>root_page_id := r\<rparr>"
  have "insertInternal idx1 (root_page_id idx1) key rid st1 = Some (Inl PageOverflow)"
    using insertInternal_leaf_overflow [of st1 idx1 kvs key rid] inv1 r0 typed room size
      idx_okD(10) [OF inv1]
    by (simp add: idx1_def)
  then show ?thesis
    by (simp add: insert_idx_def er idx1_def [symmetric])
qed

text \<open>
  The insert into a full root leaf. The promoted key and the two halves go into a node
  that \<^verbatim>\<open>getNode\<close> made a leaf, since the page \<^verbatim>\<open>createNewNode(false)\<close> left unwritten is all
  zeros; \<^verbatim>\<open>saveNode\<close> refuses it, a leaf with one key and no record. The root page id moves
  to the unwritten page, which reads as an empty leaf.
\<close>

lemma insert_idx_full:
  assumes inv: "idx_ok st idx kvs" and budget: "next_page_id st + 1 < PAGE_LIMIT"
    and typed: "has_type (key_type idx) key" and rid: "rid < 2 ^ 64"
    and full: "length kvs = max_keys idx" and pos: "0 < max_keys idx"
    and size: "leaf_size (key_type idx) (length kvs) \<le> PAGE_SIZE"
  shows "\<exists>st'. insert_idx idx key rid st =
             Some (Inr (idx\<lparr>root_page_id := next_page_id st + 1\<rparr>, st')) \<and>
           idx_ok st' (idx\<lparr>root_page_id := next_page_id st + 1\<rparr>) [] \<and>
           only_file (index_name idx) 2 st st'"
proof -
  define name where "name = index_name idx"
  define n where "n = next_page_id st"
  note o = idx_okD [OF inv]
  have root: "root_page_id idx \<noteq> 0"
  proof
    assume "root_page_id idx = 0"
    then have "kvs = []" by (rule o(7))
    then show False using full pos by simp
  qed
  have er: "ensure_root idx st = Inr (idx, st)"
    using root by (simp add: ensure_root_def)
  have b0: "next_page_id st < PAGE_LIMIT" using budget by simp
  obtain k st1 where ii: "insertInternal idx (root_page_id idx) key rid st = Some (Inr ((k, n), st1))"
    and ok1: "eng_ok st1" and np1: "next_page_id st1 = n + 1"
    and z1: "\<And>p. next_page_id st1 \<le> p \<Longrightarrow> p < PAGE_LIMIT \<Longrightarrow>
                page_of st1 name p = zero_bytes PAGE_SIZE"
    and of1: "only_file name 1 st st1"
    using insertInternal_split [OF inv root b0 typed rid full pos size]
    unfolding name_def n_def by blast
  have b1: "next_page_id st1 < PAGE_LIMIT"
    using budget by (simp add: np1 n_def)
  define st2 where "st2 = fetched (st1\<lparr>next_page_id := next_page_id st1 + 1\<rparr>) name (next_page_id st1)"
  have nr: "insert_new_root idx (k, n) st1 = Inr (idx\<lparr>root_page_id := next_page_id st1\<rparr>, st2)"
    unfolding st2_def name_def
    using z1 [of "next_page_id st1"] b1
    by (intro insert_new_root_lost [OF ok1 b1]) (simp add: name_def)
  have npos: "n \<noteq> 0" using o(2) by (simp add: n_def)
  have ins: "insert_idx idx key rid st = Some (Inr (idx\<lparr>root_page_id := n + 1\<rparr>, st2))"
    using npos by (simp add: insert_idx_def er ii nr np1)
  have ok1': "eng_ok (st1\<lparr>next_page_id := next_page_id st1 + 1\<rparr>)"
    using ok1 by simp
  note f = fetched_facts [OF ok1' b1, where f = name, folded st2_def]
  have np2: "next_page_id st2 = n + 2"
    by (simp add: f(3) np1)
  have pg2: "page_of st2 g p = page_of st1 g p" if "p < PAGE_LIMIT" for g p
    using that by (simp add: f(2))
  have "idx_ok st2 (idx\<lparr>root_page_id := n + 1\<rparr>) []"
  proof (rule idx_okI)
    show "eng_ok st2" by (rule f(1))
    show "0 < next_page_id st2" by (simp add: np2)
    show "page_of st2 (index_name (idx\<lparr>root_page_id := n + 1\<rparr>)) p = zero_bytes PAGE_SIZE"
      if "next_page_id st2 \<le> p" "p < PAGE_LIMIT" for p
      using that z1 [of p] by (simp add: pg2 np2 np1 name_def)
    show "has_type (key_type (idx\<lparr>root_page_id := n + 1\<rparr>)) (fst kr) \<and> stored (fst kr) = fst kr \<and>
          snd kr < 2 ^ 64" if "kr \<in> set []" for kr :: "Value \<times> RecordId"
      using that by simp
    show "root_page_id (idx\<lparr>root_page_id := n + 1\<rparr>) \<noteq> 0" by simp
    show "root_page_id (idx\<lparr>root_page_id := n + 1\<rparr>) < next_page_id st2"
      by (simp add: np2)
    have "page_of st2 name (n + 1) = zero_bytes PAGE_SIZE"
      using z1 [of "n + 1"] b1 by (simp add: pg2 np1)
    then show "deserializeNode (max_keys (idx\<lparr>root_page_id := n + 1\<rparr>))
          (page_of st2 (index_name (idx\<lparr>root_page_id := n + 1\<rparr>))
             (root_page_id (idx\<lparr>root_page_id := n + 1\<rparr>))) =
          Inr (leaf_node (map fst []) (map snd []) 0)"
      by (simp add: name_def [symmetric] deserializeNode_zero new_leaf_node)
    show "next_page_id st2 \<le> PAGE_LIMIT"
      using budget by (simp add: np2 n_def)
  qed
  moreover have "only_file name 2 st st2"
  proof -
    have "only_file name 1 st1 st2"
      unfolding only_file_def using f(1) by (simp add: pg2 f(3))
    from only_file_trans [OF of1 this] show ?thesis by (simp add: numeral_2_eq_2)
  qed
  ultimately show ?thesis
    using ins unfolding n_def name_def by blast
qed

section \<open>Searching the root leaf\<close>

lemma matching_records_zip:
  "matching_records key (map fst kvs) (map snd kvs) =
   Inr (map snd (filter (\<lambda>kr. value_eq (fst kr) key) kvs))"
  by (induction kvs) simp_all

text \<open>What the loop of \<^verbatim>\<open>rangeSearch\<close> collects from the pairs of one leaf.\<close>

fun range_scan :: "Value \<Rightarrow> Value \<Rightarrow> (Value \<times> RecordId) list \<Rightarrow> RecordId list" where
  "range_scan lo hi [] = []"
| "range_scan lo hi (kr # kvs) =
     (if compareValues (fst kr) hi > 0 then []
      else (if compareValues (fst kr) lo \<ge> 0 then [snd kr] else []) @ range_scan lo hi kvs)"

lemma scan_leaf_zip:
  "\<exists>stop. scan_leaf lo hi (map fst kvs) (map snd kvs) acc = Inr (acc @ range_scan lo hi kvs, stop)"
proof (induction kvs arbitrary: acc)
  case Nil
  then show ?case by auto
next
  case (Cons kr kvs)
  show ?case
  proof (cases "compareValues (fst kr) hi > 0")
    case True
    then show ?thesis by auto
  next
    case False
    show ?thesis
    proof (cases "compareValues (fst kr) lo \<ge> 0")
      case True
      with False Cons.IH [of "acc @ [snd kr]"] show ?thesis by simp
    next
      case False
      with \<open>\<not> compareValues (fst kr) hi > 0\<close> Cons.IH [of acc] show ?thesis by simp
    qed
  qed
qed

lemma idx_ok_fetched:
  assumes "idx_ok st idx kvs" and "p < PAGE_LIMIT"
  shows "idx_ok (fetched st f p) idx kvs"
  using assms fetched_facts [OF idx_okD(1) [OF assms(1)] assms(2), where f = f]
  by (intro idx_ok_cong [OF assms(1)]) simp_all

lemma findLeaf_root:
  assumes inv: "idx_ok st idx kvs" and root: "root_page_id idx \<noteq> 0"
  shows "findLeaf idx (root_page_id idx) key st =
         Some (Inr (root_page_id idx, fetched st (index_name idx) (root_page_id idx)))"
  by (subst findLeaf.simps) (simp add: getNode_root [OF inv root idx_okD(10) [OF inv]])

lemma search_root_leaf:
  assumes inv: "idx_ok st idx kvs"
  shows "\<exists>st'. search idx key st =
            Some (Inr (map snd (filter (\<lambda>kr. value_eq (fst kr) key) kvs), st')) \<and>
          idx_ok st' idx kvs \<and> only_file (index_name idx) 0 st st'"
proof (cases "root_page_id idx = 0")
  case True
  then have "kvs = []" by (rule idx_okD(7) [OF inv])
  then show ?thesis
    using True inv only_file_refl [OF idx_okD(1) [OF inv]] by (simp add: search_def)
next
  case False
  define name where "name = index_name idx"
  define r where "r = root_page_id idx"
  define st1 where "st1 = fetched st name r"
  define st2 where "st2 = fetched st1 name r"
  have rl: "r < PAGE_LIMIT"
    using idx_okD(8) [OF inv False] idx_okD(10) [OF inv] by (simp add: r_def)
  have inv1: "idx_ok st1 idx kvs"
    unfolding st1_def by (rule idx_ok_fetched [OF inv rl])
  have inv2: "idx_ok st2 idx kvs"
    unfolding st2_def by (rule idx_ok_fetched [OF inv1 rl])
  have fl: "findLeaf idx r key st = Some (Inr (r, st1))"
    using findLeaf_root [OF inv False] by (simp add: r_def st1_def name_def)
  have gn: "getNode idx r st1 = Inr (leaf_node (map fst kvs) (map snd kvs) 0, st2)"
    using getNode_root [OF inv1 False idx_okD(10) [OF inv1]] by (simp add: r_def st2_def name_def)
  have "search idx key st = Some (Inr (map snd (filter (\<lambda>kr. value_eq (fst kr) key) kvs), st2))"
    using False by (simp add: search_def r_def [symmetric] fl gn matching_records_zip)
  moreover have "only_file name 0 st st2"
  proof -
    have "only_file name 0 st st1"
      unfolding st1_def by (rule only_file_fetched [OF idx_okD(1) [OF inv] rl])
    moreover have "only_file name 0 st1 st2"
      unfolding st2_def by (rule only_file_fetched [OF idx_okD(1) [OF inv1] rl])
    ultimately show ?thesis
      using only_file_trans [of name 0 st st1 0 st2] by simp
  qed
  ultimately show ?thesis
    using inv2 unfolding name_def by blast
qed

lemma rangeSearch_root_leaf:
  assumes inv: "idx_ok st idx kvs"
  shows "\<exists>st'. rangeSearch idx lo hi st = Some (Inr (range_scan lo hi kvs, st')) \<and>
          idx_ok st' idx kvs \<and> only_file (index_name idx) 0 st st'"
proof (cases "root_page_id idx = 0")
  case True
  then have "kvs = []" by (rule idx_okD(7) [OF inv])
  then show ?thesis
    using True inv only_file_refl [OF idx_okD(1) [OF inv]] by (simp add: rangeSearch_def)
next
  case False
  define name where "name = index_name idx"
  define r where "r = root_page_id idx"
  define st1 where "st1 = fetched st name r"
  define st2 where "st2 = fetched st1 name r"
  have rl: "r < PAGE_LIMIT"
    using idx_okD(8) [OF inv False] idx_okD(10) [OF inv] by (simp add: r_def)
  have r0: "r \<noteq> 0" using False by (simp add: r_def)
  have inv1: "idx_ok st1 idx kvs"
    unfolding st1_def by (rule idx_ok_fetched [OF inv rl])
  have inv2: "idx_ok st2 idx kvs"
    unfolding st2_def by (rule idx_ok_fetched [OF inv1 rl])
  have fl: "findLeaf idx r lo st = Some (Inr (r, st1))"
    using findLeaf_root [OF inv False] by (simp add: r_def st1_def name_def)
  have gn: "getNode idx r st1 = Inr (leaf_node (map fst kvs) (map snd kvs) 0, st2)"
    using getNode_root [OF inv1 False idx_okD(10) [OF inv1]] by (simp add: r_def st2_def name_def)
  obtain stop where sc: "scan_leaf lo hi (map fst kvs) (map snd kvs) [] = Inr (range_scan lo hi kvs, stop)"
    using scan_leaf_zip [of lo hi kvs "[]"] by auto
  have end_walk: "range_walk idx lo hi 0 (range_scan lo hi kvs) st2 = Some (Inr (range_scan lo hi kvs, st2))"
    by (subst range_walk.simps) simp
  have "range_walk idx lo hi r [] st1 = Some (Inr (range_scan lo hi kvs, st2))"
    using r0 by (subst range_walk.simps) (simp add: gn sc end_walk)
  then have "rangeSearch idx lo hi st = Some (Inr (range_scan lo hi kvs, st2))"
    using False by (simp add: rangeSearch_def r_def [symmetric] fl)
  moreover have "only_file name 0 st st2"
  proof -
    have "only_file name 0 st st1"
      unfolding st1_def by (rule only_file_fetched [OF idx_okD(1) [OF inv] rl])
    moreover have "only_file name 0 st1 st2"
      unfolding st2_def by (rule only_file_fetched [OF idx_okD(1) [OF inv1] rl])
    ultimately show ?thesis
      using only_file_trans [of name 0 st st1 0 st2] by simp
  qed
  ultimately show ?thesis
    using inv2 unfolding name_def by blast
qed

section \<open>The data pages of a column\<close>

text \<open>
  The page \<open>pid\<close> of the data file of a column that holds the values \<open>vs\<close>: the encoded
  records of that page, then zeros.
\<close>

definition rpp_of :: "DataType \<Rightarrow> nat" where
  "rpp_of ty = PAGE_SIZE div getRecordSize ty"

definition page_slots :: "DataType \<Rightarrow> Value list \<Rightarrow> nat \<Rightarrow> Value list" where
  "page_slots ty vs pid = take (rpp_of ty) (drop (pid * rpp_of ty) vs)"

definition data_page :: "DataType \<Rightarrow> Value list \<Rightarrow> nat \<Rightarrow> byte list" where
  "data_page ty vs pid =
     concat (map (enc ty) (page_slots ty vs pid))
       @ zero_bytes (PAGE_SIZE - length (concat (map (enc ty) (page_slots ty vs pid))))"

lemma rpp_of_pos: "0 < rpp_of ty"
  by (cases ty) (simp_all add: rpp_of_def PAGE_SIZE_def)

lemma rpp_size: "rpp_of ty * getRecordSize ty \<le> PAGE_SIZE"
  by (cases ty) (simp_all add: rpp_of_def PAGE_SIZE_def)

lemma size_pos: "0 < getRecordSize ty"
  by (cases ty) simp_all

lemma records_per_page_rpp: "records_per_page col = rpp_of (column_type col)"
  by (simp add: records_per_page_def rpp_of_def)

lemma length_page_slots: "length (page_slots ty vs pid) = min (rpp_of ty) (length vs - pid * rpp_of ty)"
  by (simp add: page_slots_def)

lemma length_data_page:
  assumes "\<forall>v \<in> set vs. has_type ty v"
  shows "length (data_page ty vs pid) = PAGE_SIZE"
proof -
  have t: "\<forall>v \<in> set (page_slots ty vs pid). has_type ty v"
    using assms unfolding page_slots_def by (meson in_set_takeD in_set_dropD)
  have "length (page_slots ty vs pid) \<le> rpp_of ty"
    by (simp add: length_page_slots)
  then have "length (page_slots ty vs pid) * getRecordSize ty \<le> rpp_of ty * getRecordSize ty"
    by (rule mult_le_mono1)
  then have "length (page_slots ty vs pid) * getRecordSize ty \<le> PAGE_SIZE"
    using rpp_size [of ty] by (rule le_trans)
  then have "length (concat (map (enc ty) (page_slots ty vs pid))) \<le> PAGE_SIZE"
    by (simp add: length_concat_enc [OF t])
  then show ?thesis
    by (simp add: data_page_def zero_bytes_def)
qed

lemma data_page_empty: "data_page ty [] pid = zero_bytes PAGE_SIZE"
  by (simp add: data_page_def page_slots_def)

lemma page_slots_append_other:
  assumes "pid \<noteq> length vs div rpp_of ty"
  shows "page_slots ty (vs @ [v]) pid = page_slots ty vs pid"
proof (cases "pid < length vs div rpp_of ty")
  case True
  then have "Suc pid \<le> length vs div rpp_of ty" by simp
  then have "Suc pid * rpp_of ty \<le> (length vs div rpp_of ty) * rpp_of ty"
    by (rule mult_le_mono1)
  also have "\<dots> \<le> length vs"
    by simp
  finally have "Suc pid * rpp_of ty \<le> length vs" .
  then have "rpp_of ty \<le> length vs - pid * rpp_of ty" and "pid * rpp_of ty \<le> length vs"
    by simp_all
  then show ?thesis
    by (simp add: page_slots_def)
next
  case False
  with assms have "length vs div rpp_of ty < pid" by simp
  then have "length vs < pid * rpp_of ty"
    using rpp_of_pos [of ty] by (simp add: div_less_iff_less_mult)
  then show ?thesis
    by (simp add: page_slots_def)
qed

lemma page_slots_append_last:
  assumes "pid = length vs div rpp_of ty"
  shows "page_slots ty vs pid = drop (pid * rpp_of ty) vs"
    and "page_slots ty (vs @ [v]) pid = drop (pid * rpp_of ty) vs @ [v]"
    and "length (drop (pid * rpp_of ty) vs) = length vs mod rpp_of ty"
proof -
  have le: "pid * rpp_of ty \<le> length vs"
    using assms by simp
  have len: "length vs - pid * rpp_of ty = length vs mod rpp_of ty"
    using assms by (simp add: minus_div_mult_eq_mod)
  have lt: "length vs mod rpp_of ty < rpp_of ty"
    using rpp_of_pos [of ty] by simp
  show "page_slots ty vs pid = drop (pid * rpp_of ty) vs"
    using len lt by (simp add: page_slots_def)
  show "page_slots ty (vs @ [v]) pid = drop (pid * rpp_of ty) vs @ [v]"
    using len lt le by (simp add: page_slots_def)
  show "length (drop (pid * rpp_of ty) vs) = length vs mod rpp_of ty"
    using len by simp
qed

lemma data_page_append_other:
  "pid \<noteq> length vs div rpp_of ty \<Longrightarrow> data_page ty (vs @ [v]) pid = data_page ty vs pid"
  by (simp add: data_page_def page_slots_append_other)

lemma data_page_append_last:
  assumes typed: "\<forall>x \<in> set vs. has_type ty x" and tv: "has_type ty v"
  shows "write_bytes (data_page ty vs (length vs div rpp_of ty))
           ((length vs mod rpp_of ty) * getRecordSize ty) (enc ty v) =
         data_page ty (vs @ [v]) (length vs div rpp_of ty)"
proof -
  define pid where "pid = length vs div rpp_of ty"
  define off where "off = length vs mod rpp_of ty"
  define sz where "sz = getRecordSize ty"
  define xs where "xs = drop (pid * rpp_of ty) vs"
  define body where "body = concat (map (enc ty) xs)"
  note ps = page_slots_append_last [OF pid_def, folded xs_def off_def]
  have tx: "\<forall>x \<in> set xs. has_type ty x"
    using typed unfolding xs_def by (meson in_set_dropD)
  have lb: "length body = off * sz"
    by (simp add: body_def length_concat_enc [OF tx] ps(3) sz_def)
  have le: "Suc off * sz \<le> PAGE_SIZE"
  proof -
    have "Suc off \<le> rpp_of ty"
      using rpp_of_pos [of ty] by (simp add: off_def Suc_le_eq)
    from mult_le_mono1 [OF this] have "Suc off * sz \<le> rpp_of ty * sz" .
    moreover have "rpp_of ty * sz \<le> PAGE_SIZE" using rpp_size [of ty] by (simp add: sz_def)
    ultimately show ?thesis by (rule le_trans)
  qed
  have lv: "length (enc ty v) = sz"
    by (simp add: length_enc [OF tv] sz_def)
  have old: "data_page ty vs pid = body @ zero_bytes (PAGE_SIZE - off * sz)"
    by (simp add: data_page_def ps(1) body_def [symmetric] lb)
  have new: "data_page ty (vs @ [v]) pid = body @ enc ty v @ zero_bytes (PAGE_SIZE - Suc off * sz)"
    by (simp add: data_page_def ps(2) body_def [symmetric] lb lv add.commute)
  have "write_bytes (body @ zero_bytes (PAGE_SIZE - off * sz)) (off * sz) (enc ty v) =
        body @ enc ty v @ zero_bytes (PAGE_SIZE - Suc off * sz)"
    using le by (simp add: write_bytes_def lb lv zero_bytes_def)
  then show ?thesis
    by (simp add: old new pid_def [symmetric] off_def [symmetric] sz_def [symmetric])
qed



section \<open>A column and the values appended to it\<close>

text \<open>
  The pairs in the root leaf of the index after the values \<open>vs\<close> were appended, record ids
  counting from 0: each value goes in at its lower bound, and the insert into a full leaf
  leaves the index with an empty root.
\<close>

definition leaf_step ::
  "nat \<Rightarrow> (Value \<times> RecordId) list \<Rightarrow> Value \<Rightarrow> RecordId \<Rightarrow> (Value \<times> RecordId) list" where
  "leaf_step maxk kvs v r = (if length kvs < maxk then leaf_insert kvs v r else [])"

definition leaf_after :: "nat \<Rightarrow> Value list \<Rightarrow> (Value \<times> RecordId) list" where
  "leaf_after maxk vs =
     foldl (\<lambda>kvs vr. leaf_step maxk kvs (fst vr) (snd vr)) [] (zip vs [0 ..< length vs])"

definition col_ok :: "engine \<Rightarrow> DiskBasedColumn \<Rightarrow> Value list \<Rightarrow> bool" where
  "col_ok st col vs \<longleftrightarrow>
     total_records col = length vs \<and>
     data_file col \<noteq> index_name (column_index col) \<and>
     key_type (column_index col) = column_type col \<and>
     max_keys (column_index col) = BTREE_ORDER - 1 \<and>
     (\<forall>v \<in> set vs. has_type (column_type col) v) \<and>
     idx_ok st (column_index col) (leaf_after (BTREE_ORDER - 1) vs) \<and>
     (\<forall>p. p < PAGE_LIMIT \<longrightarrow> page_of st (data_file col) p = data_page (column_type col) vs p)"

text \<open>A string column holds fifteen values before its index leaf outgrows the page.\<close>

definition can_hold :: "DataType \<Rightarrow> nat \<Rightarrow> bool" where
  "can_hold ty n \<longleftrightarrow> (ty = STRING \<longrightarrow> n \<le> 15)"

fun append_all ::
  "DiskBasedColumn \<Rightarrow> Value list \<Rightarrow> engine \<Rightarrow> (error + (DiskBasedColumn \<times> engine)) option" where
  "append_all col [] st = Some (Inr (col, st))"
| "append_all col (v # vs) st =
     Option.bind (append_col col v st)
       (\<lambda>r. case r of
              Inl e \<Rightarrow> Some (Inl (fst e))
            | Inr ap \<Rightarrow> append_all (snd (fst ap)) vs (snd ap))"

lemma leaf_after_Nil [simp]: "leaf_after maxk [] = []"
  by (simp add: leaf_after_def)

lemma leaf_after_snoc:
  "leaf_after maxk (vs @ [v]) = leaf_step maxk (leaf_after maxk vs) v (length vs)"
  by (simp add: leaf_after_def)

lemma length_leaf_insert [simp]: "length (leaf_insert kvs v r) = Suc (length kvs)"
  by (simp add: leaf_insert_def)

lemma length_leaf_after: "length (leaf_after maxk vs) \<le> maxk \<and> length (leaf_after maxk vs) \<le> length vs"
proof (induction vs rule: rev_induct)
  case Nil
  then show ?case by simp
next
  case (snoc v vs)
  then show ?case by (simp add: leaf_after_snoc leaf_step_def)
qed

lemma leaf_after_small:
  "length vs \<le> maxk \<Longrightarrow> length (leaf_after maxk vs) = length vs"
proof (induction vs rule: rev_induct)
  case Nil
  then show ?case by simp
next
  case (snoc v vs)
  then show ?case by (simp add: leaf_after_snoc leaf_step_def)
qed

lemma fits_leaf:
  assumes "can_hold ty (Suc m)" and "m \<le> BTREE_ORDER - 1"
  shows "leaf_size ty (Suc m) \<le> PAGE_SIZE"
proof (cases "ty = STRING")
  case True
  with assms have "m \<le> 14" by (simp add: can_hold_def)
  then have "Suc m * 256 + 8 * (Suc m + 1) \<le> 15 * 256 + 8 * 16"
    by (intro add_le_mono mult_le_mono) simp_all
  then show ?thesis
    using True by (simp add: leaf_size_def PAGE_SIZE_def)
next
  case False
  then have "getRecordSize ty \<le> 8" by (cases ty) simp_all
  moreover have "m \<le> 127" using assms(2) by (simp add: BTREE_ORDER_def)
  ultimately have "Suc m * getRecordSize ty + 8 * (Suc m + 1) \<le> 128 * 8 + 8 * 129"
    by (intro add_le_mono mult_le_mono) simp_all
  then show ?thesis
    by (simp add: leaf_size_def PAGE_SIZE_def)
qed

lemma col_okD:
  assumes "col_ok st col vs"
  shows "total_records col = length vs"
    and "data_file col \<noteq> index_name (column_index col)"
    and "key_type (column_index col) = column_type col"
    and "max_keys (column_index col) = BTREE_ORDER - 1"
    and "\<forall>v \<in> set vs. has_type (column_type col) v"
    and "idx_ok st (column_index col) (leaf_after (BTREE_ORDER - 1) vs)"
    and "\<And>p. p < PAGE_LIMIT \<Longrightarrow> page_of st (data_file col) p = data_page (column_type col) vs p"
  using assms unfolding col_ok_def by blast+

lemma flush_facts:
  assumes "eng_ok st"
  shows "eng_ok (st\<lparr>buffer_manager := append_flush col pid (buffer_manager st)\<rparr>)"
    and "\<And>f p. p < PAGE_LIMIT \<Longrightarrow>
           page_of (st\<lparr>buffer_manager := append_flush col pid (buffer_manager st)\<rparr>) f p = page_of st f p"
    and "next_page_id (st\<lparr>buffer_manager := append_flush col pid (buffer_manager st)\<rparr>) = next_page_id st"
  using assms flushPage_pool_ok [of "buffer_manager st" "data_file col" pid]
  by (simp_all add: append_flush_def eng_ok_def page_of_def same_content_def)

lemma col_ok_new:
  assumes "eng_ok st" and "0 < next_page_id st" and "next_page_id st \<le> PAGE_LIMIT"
    and "\<And>p. p < PAGE_LIMIT \<Longrightarrow> page_of st (name @ ''.data'') p = zero_bytes PAGE_SIZE"
    and "\<And>p. p < PAGE_LIMIT \<Longrightarrow> page_of st (name @ ''.idx'') p = zero_bytes PAGE_SIZE"
  shows "col_ok st (new_DiskBasedColumn name ty) []"
  using assms
  by (simp add: col_ok_def new_DiskBasedColumn_def new_BPlusTreeIndex_def idx_ok_def
      data_page_empty)

lemma col_ok_new_engine: "col_ok new_engine (new_DiskBasedColumn name ty) []"
  by (rule col_ok_new) (simp_all add: eng_ok_new page_of_new, simp_all add: new_engine_def PAGE_LIMIT_def)

lemma writeValueToPage_typed:
  "has_type ty v \<Longrightarrow>
   writeValueToPage ty d off v = Inr (write_bytes d (off * getRecordSize ty) (enc ty v))"
  by (simp add: writeValueToPage_def serializeValue_typed)


text \<open>The index step of one append, from the lemmas on the root leaf.\<close>

lemma insert_idx_step:
  assumes inv: "idx_ok st idx kvs" and budget: "next_page_id st + 1 < PAGE_LIMIT"
    and typed: "has_type (key_type idx) key" and rid: "rid < 2 ^ 64"
    and maxk: "max_keys idx = BTREE_ORDER - 1" and len: "length kvs \<le> max_keys idx"
    and fit: "leaf_size (key_type idx) (Suc (length kvs)) \<le> PAGE_SIZE"
  shows "\<exists>r st'. insert_idx idx key rid st = Some (Inr (idx\<lparr>root_page_id := r\<rparr>, st')) \<and>
           idx_ok st' (idx\<lparr>root_page_id := r\<rparr>) (leaf_step (max_keys idx) kvs key rid) \<and>
           only_file (index_name idx) 2 st st'"
proof (cases "length kvs < max_keys idx")
  case True
  have b: "next_page_id st < PAGE_LIMIT" using budget by simp
  obtain r st' where "insert_idx idx key rid st = Some (Inr (idx\<lparr>root_page_id := r\<rparr>, st'))"
    and "idx_ok st' (idx\<lparr>root_page_id := r\<rparr>) (leaf_insert kvs key rid)"
    and "only_file (index_name idx) 1 st st'"
    using insert_idx_room [OF inv b typed rid True fit] by blast
  then show ?thesis
    using True only_file_mono [of "index_name idx" 1 st st' 2]
    by (auto simp: leaf_step_def)
next
  case False
  then have full: "length kvs = max_keys idx" using len by simp
  have pos: "0 < max_keys idx" by (simp add: maxk BTREE_ORDER_def)
  have size: "leaf_size (key_type idx) (length kvs) \<le> PAGE_SIZE"
    using leaf_size_mono [of "length kvs" "Suc (length kvs)" "key_type idx"] fit by simp
  obtain st' where "insert_idx idx key rid st =
      Some (Inr (idx\<lparr>root_page_id := next_page_id st + 1\<rparr>, st'))"
    and "idx_ok st' (idx\<lparr>root_page_id := next_page_id st + 1\<rparr>) []"
    and "only_file (index_name idx) 2 st st'"
    using insert_idx_full [OF inv budget typed rid full pos size] by blast
  then show ?thesis
    using False by (auto simp: leaf_step_def)
qed

lemma append_col_ok:
  assumes c: "col_ok st col vs" and tv: "has_type (column_type col) v"
    and n: "length vs < PAGE_LIMIT" and budget: "next_page_id st + 1 < PAGE_LIMIT"
    and hold: "can_hold (column_type col) (Suc (length vs))"
  shows "\<exists>r st'. append_col col v st =
            Some (Inr ((length vs,
                        col\<lparr>column_index := (column_index col)\<lparr>root_page_id := r\<rparr>,
                            total_records := length vs + 1\<rparr>), st')) \<and>
          col_ok st' (col\<lparr>column_index := (column_index col)\<lparr>root_page_id := r\<rparr>,
                          total_records := length vs + 1\<rparr>) (vs @ [v]) \<and>
          next_page_id st \<le> next_page_id st' \<and> next_page_id st' \<le> next_page_id st + 2 \<and>
          (\<forall>f p. f \<noteq> data_file col \<and> f \<noteq> index_name (column_index col) \<and> p < PAGE_LIMIT \<longrightarrow>
                 page_of st' f p = page_of st f p) \<and>
          (vs = [] \<longrightarrow>
             (\<exists>st2. eng_ok st2 \<and>
                    page_of st2 (data_file col) 0 = data_page (column_type col) [v] 0 \<and>
                    st' = st2\<lparr>buffer_manager := flushPage (buffer_manager st2) (data_file col) 0\<rparr>))"
proof -
  define ty where "ty = column_type col"
  define df where "df = data_file col"
  define idx where "idx = column_index col"
  define iname where "iname = index_name idx"
  define maxk where "maxk = BTREE_ORDER - 1"
  define kvs where "kvs = leaf_after maxk vs"
  define m where "m = length vs"
  define pid where "pid = m div rpp_of ty"
  define off where "off = m mod rpp_of ty"
  define d' where "d' = data_page ty (vs @ [v]) pid"
  define st1 where "st1 = written st df pid d'"
  note o = col_okD [OF c, folded ty_def df_def idx_def maxk_def kvs_def iname_def m_def]
  have ok: "eng_ok st" using idx_okD(1) [OF o(6)] .
  have pl: "pid < PAGE_LIMIT"
    using n le_less_trans [OF div_le_dividend, of "length vs" PAGE_LIMIT "rpp_of ty"]
    by (simp add: pid_def m_def)
  have tvs: "\<forall>x \<in> set (vs @ [v]). has_type ty x"
    using o(5) tv by (simp add: ty_def)
  have ld: "length d' = PAGE_SIZE"
    unfolding d'_def by (rule length_data_page [OF tvs])
  note w = written_facts [OF ok pl ld, where f = df, folded st1_def]
  have fd: "data (fst (fetchPage (buffer_manager st) df pid)) = data_page ty vs pid"
    using fetched_facts(4) [OF ok pl, of df] o(7) [OF pl] by simp
  have wv: "writeValueToPage ty (data_page ty vs pid) off v = Inr d'"
    using data_page_append_last [OF o(5) tv [folded ty_def]]
    by (simp add: writeValueToPage_typed [OF tv [folded ty_def]] d'_def pid_def off_def m_def)
  have dfi: "df \<noteq> iname" using o(2) by (simp add: iname_def)
  have inv1: "idx_ok st1 idx kvs"
    using w dfi by (intro idx_ok_cong [OF o(6)]) (simp_all add: iname_def)
  have fit: "leaf_size (key_type idx) (Suc (length kvs)) \<le> PAGE_SIZE"
  proof -
    have lk: "length kvs \<le> maxk" "length kvs \<le> m"
      using length_leaf_after [of maxk vs] by (simp_all add: kvs_def m_def)
    have "can_hold ty (Suc (length kvs))"
      using hold lk(2) by (auto simp: can_hold_def ty_def m_def)
    then show ?thesis
      using lk(1) by (simp add: o(3) fits_leaf maxk_def)
  qed
  obtain r st2 where ins: "insert_idx idx v m st1 = Some (Inr (idx\<lparr>root_page_id := r\<rparr>, st2))"
    and inv2: "idx_ok st2 (idx\<lparr>root_page_id := r\<rparr>) (leaf_step (max_keys idx) kvs v m)"
    and of2: "only_file iname 2 st1 st2"
  proof -
    have "next_page_id st1 + 1 < PAGE_LIMIT" using budget by (simp add: w(3))
    moreover have "has_type (key_type idx) v" using tv by (simp add: o(3) ty_def)
    moreover have "m < 2 ^ 64" using n by (simp add: m_def PAGE_LIMIT_def)
    moreover have "length kvs \<le> max_keys idx"
      using length_leaf_after [of maxk vs] by (simp add: kvs_def o(4))
    ultimately show ?thesis
      using insert_idx_step [OF inv1 _ _ _ _ _ fit, of v m] o(4) that
      by (auto simp: maxk_def iname_def)
  qed
  define idx' where "idx' = idx\<lparr>root_page_id := r\<rparr>"
  define col' where "col' = col\<lparr>column_index := idx', total_records := m + 1\<rparr>"
  define st3 where "st3 = st2\<lparr>buffer_manager := append_flush col pid (buffer_manager st2)\<rparr>"
  have ok2: "eng_ok st2" using idx_okD(1) [OF inv2] .
  note fl = flush_facts [OF ok2, where col = col and pid = pid, folded st3_def]
  have ap: "append_col col v st = Some (Inr ((m, col'), st3))"
    using ins
    by (simp add: append_col_def Let_def records_per_page_rpp o(1) ty_def [symmetric]
        df_def [symmetric] pid_def [symmetric] off_def [symmetric] fd wv
        written_def [symmetric] write_page_def [symmetric] st1_def [symmetric]
        idx_def [symmetric] col'_def idx'_def st3_def)
  have other: "page_of st3 f p = page_of st1 f p" if "f \<noteq> iname" "p < PAGE_LIMIT" for f p
    using that of2 by (simp add: fl(2) only_file_def)
  have "col_ok st3 col' (vs @ [v])"
    unfolding col_ok_def
  proof (intro conjI allI impI)
    show "total_records col' = length (vs @ [v])" by (simp add: col'_def m_def)
    show "data_file col' \<noteq> index_name (column_index col')"
      using dfi by (simp add: col'_def idx'_def df_def iname_def)
    show "key_type (column_index col') = column_type col'"
      using o(3) by (simp add: col'_def idx'_def ty_def)
    show "max_keys (column_index col') = BTREE_ORDER - 1"
      using o(4) by (simp add: col'_def idx'_def maxk_def)
    show "\<forall>x \<in> set (vs @ [v]). has_type (column_type col') x"
      using tvs by (simp add: col'_def ty_def)
    show "idx_ok st3 (column_index col') (leaf_after (BTREE_ORDER - 1) (vs @ [v]))"
    proof -
      have "idx_ok st3 idx' (leaf_step (max_keys idx) kvs v m)"
        using fl by (intro idx_ok_cong [OF inv2 [folded idx'_def]]) simp_all
      then have "idx_ok st3 idx' (leaf_after (BTREE_ORDER - 1) (vs @ [v]))"
        unfolding leaf_after_snoc kvs_def maxk_def m_def o(4) [unfolded maxk_def] .
      then show ?thesis
        by (simp add: col'_def)
    qed
    show "page_of st3 (data_file col') p = data_page (column_type col') (vs @ [v]) p"
      if "p < PAGE_LIMIT" for p
    proof -
      have "page_of st3 df p = page_of st1 df p"
        using dfi that by (rule other)
      also have "\<dots> = (if p = pid then d' else data_page ty vs p)"
        using that o(7) [OF that] by (simp add: w(2))
      also have "\<dots> = data_page ty (vs @ [v]) p"
        using data_page_append_other [of p vs ty v] by (simp add: d'_def pid_def m_def)
      finally show ?thesis by (simp add: col'_def df_def ty_def)
    qed
  qed
  moreover have "next_page_id st \<le> next_page_id st3" "next_page_id st3 \<le> next_page_id st + 2"
    using of2 by (simp_all add: fl(3) only_file_def w(3))
  moreover have "page_of st3 f p = page_of st f p"
    if "f \<noteq> df" "f \<noteq> iname" "p < PAGE_LIMIT" for f p
    using that other [of f p] by (simp add: w(2))
  moreover have "vs = [] \<longrightarrow>
      (\<exists>s. eng_ok s \<and> page_of s df 0 = data_page ty [v] 0 \<and>
           st3 = s\<lparr>buffer_manager := flushPage (buffer_manager s) df 0\<rparr>)"
  proof
    assume e: "vs = []"
    then have z: "m = 0" "pid = 0" by (simp_all add: m_def pid_def)
    have "page_of st2 df 0 = page_of st1 df 0"
      using of2 dfi pl by (simp add: only_file_def z)
    then have "page_of st2 df 0 = data_page ty [v] 0"
      using w(2) [OF pl, of df] by (simp add: z d'_def e)
    moreover have "st3 = st2\<lparr>buffer_manager := flushPage (buffer_manager st2) df 0\<rparr>"
      using o(1) by (simp add: st3_def append_flush_def z df_def)
    ultimately show "\<exists>s. eng_ok s \<and> page_of s df 0 = data_page ty [v] 0 \<and>
           st3 = s\<lparr>buffer_manager := flushPage (buffer_manager s) df 0\<rparr>"
      using ok2 by blast
  qed
  ultimately show ?thesis
    using ap unfolding col'_def idx'_def m_def df_def iname_def idx_def ty_def by blast
qed

section \<open>Runs of appends and what is read after them\<close>

lemma can_hold_mono: "can_hold ty n \<Longrightarrow> m \<le> n \<Longrightarrow> can_hold ty m"
  by (auto simp: can_hold_def)

lemma append_all_ok:
  assumes "col_ok st col vs0" and "\<forall>v \<in> set vs. has_type (column_type col) v"
    and "length vs0 + length vs < PAGE_LIMIT"
    and "next_page_id st + 2 * length vs < PAGE_LIMIT"
    and "can_hold (column_type col) (length vs0 + length vs)"
  shows "\<exists>col' st'. append_all col vs st = Some (Inr (col', st')) \<and> col_ok st' col' (vs0 @ vs) \<and>
           column_type col' = column_type col"
  using assms
proof (induction vs arbitrary: col st vs0)
  case Nil
  then show ?case by simp
next
  case (Cons v vs)
  have tv: "has_type (column_type col) v" using Cons.prems(2) by simp
  have n: "length vs0 < PAGE_LIMIT" using Cons.prems(3) by simp
  have b: "next_page_id st + 1 < PAGE_LIMIT" using Cons.prems(4) by simp
  have h: "can_hold (column_type col) (Suc (length vs0))"
    using can_hold_mono [OF Cons.prems(5), of "Suc (length vs0)"] by simp
  from append_col_ok [OF Cons.prems(1) tv n b h]
  obtain r st1 where a: "append_col col v st =
        Some (Inr ((length vs0,
                    col\<lparr>column_index := (column_index col)\<lparr>root_page_id := r\<rparr>,
                        total_records := length vs0 + 1\<rparr>), st1))"
    and c1: "col_ok st1 (col\<lparr>column_index := (column_index col)\<lparr>root_page_id := r\<rparr>,
                            total_records := length vs0 + 1\<rparr>) (vs0 @ [v])"
    and np: "next_page_id st1 \<le> next_page_id st + 2"
    by blast
  define col1 where "col1 = col\<lparr>column_index := (column_index col)\<lparr>root_page_id := r\<rparr>,
                            total_records := length vs0 + 1\<rparr>"
  have ty1: "column_type col1 = column_type col" by (simp add: col1_def)
  have "\<exists>col' st'. append_all col1 vs st1 = Some (Inr (col', st')) \<and>
           col_ok st' col' ((vs0 @ [v]) @ vs) \<and> column_type col' = column_type col1"
  proof (rule Cons.IH)
    show "col_ok st1 col1 (vs0 @ [v])" using c1 by (simp add: col1_def)
    show "\<forall>v \<in> set vs. has_type (column_type col1) v" using Cons.prems(2) by (simp add: ty1)
    show "length (vs0 @ [v]) + length vs < PAGE_LIMIT" using Cons.prems(3) by simp
    show "next_page_id st1 + 2 * length vs < PAGE_LIMIT" using Cons.prems(4) np by simp
    show "can_hold (column_type col1) (length (vs0 @ [v]) + length vs)"
      using Cons.prems(5) by (simp add: ty1)
  qed
  then show ?case
    using a by (simp add: col1_def)
qed


lemma findRecords_ok:
  assumes c: "col_ok st col vs"
  shows "\<exists>st'. findRecords col v st =
            Some (Inr (map snd (filter (\<lambda>kr. value_eq (fst kr) v) (leaf_after (BTREE_ORDER - 1) vs)), st'))"
  using search_root_leaf [OF col_okD(6) [OF c], of v] by (auto simp: findRecords_def)

lemma findRecordsInRange_ok:
  assumes c: "col_ok st col vs"
  shows "\<exists>st'. findRecordsInRange col lo hi st =
            Some (Inr (range_scan lo hi (leaf_after (BTREE_ORDER - 1) vs), st'))"
  using rangeSearch_root_leaf [OF col_okD(6) [OF c], of lo hi] by (auto simp: findRecordsInRange_def)

section \<open>Reading a column back\<close>


lemma fresh_column_ok:
  assumes "\<forall>v \<in> set vs. has_type ty v" and "length vs < 2 ^ 50" and "can_hold ty (length vs)"
  shows "\<exists>col st. append_all (new_DiskBasedColumn name ty) vs new_engine = Some (Inr (col, st)) \<and>
           col_ok st col vs \<and> column_type col = ty"
proof -
  have t: "column_type (new_DiskBasedColumn name ty) = ty"
    by (simp add: new_DiskBasedColumn_def)
  have "length vs < PAGE_LIMIT" "next_page_id new_engine + 2 * length vs < PAGE_LIMIT"
    using assms(2) by (simp_all add: PAGE_LIMIT_def new_engine_def)
  then show ?thesis
    using append_all_ok [OF col_ok_new_engine [of name ty], of vs] assms by (simp add: t)
qed



lemma rpp_small: "r < 2 ^ 51 \<Longrightarrow> r div rpp_of ty < PAGE_LIMIT"
  using le_less_trans [OF div_le_dividend, of r PAGE_LIMIT "rpp_of ty"] by (simp add: PAGE_LIMIT_def)

section \<open>The insert that splits the root\<close>

text \<open>
  The program that makes an index on a new engine, inserts the pairs \<open>krs\<close> in order and
  then calls \<^verbatim>\<open>search\<close> once.
\<close>

fun insert_all ::
  "BPlusTreeIndex \<Rightarrow> (Value \<times> RecordId) list \<Rightarrow> engine \<Rightarrow> (error + (BPlusTreeIndex \<times> engine)) option" where
  "insert_all idx [] st = Some (Inr (idx, st))"
| "insert_all idx (kr # krs) st =
     Option.bind (insert_idx idx (fst kr) (snd kr) st)
       (\<lambda>r. case r of
              Inl e \<Rightarrow> Some (Inl e)
            | Inr ins \<Rightarrow> insert_all (fst ins) krs (snd ins))"

definition search_after ::
  "string \<Rightarrow> DataType \<Rightarrow> (Value \<times> RecordId) list \<Rightarrow> Value \<Rightarrow> (error + RecordId list) option" where
  "search_after name ty krs key =
     (case insert_all (new_BPlusTreeIndex name ty) krs new_engine of
        None \<Rightarrow> None
      | Some (Inl e) \<Rightarrow> Some (Inl e)
      | Some (Inr ins) \<Rightarrow>
          (case search (fst ins) key (snd ins) of
             None \<Rightarrow> None
           | Some (Inl e) \<Rightarrow> Some (Inl e)
           | Some (Inr sr) \<Rightarrow> Some (Inr (fst sr))))"

text \<open>The pairs in the root leaf after the inserts \<open>krs\<close>, from the pairs \<open>kvs\<close>.\<close>

definition leaf_run ::
  "nat \<Rightarrow> (Value \<times> RecordId) list \<Rightarrow> (Value \<times> RecordId) list \<Rightarrow> (Value \<times> RecordId) list" where
  "leaf_run maxk kvs krs = foldl (\<lambda>kvs kr. leaf_step maxk kvs (fst kr) (snd kr)) kvs krs"

lemma leaf_run_Cons: "leaf_run maxk kvs (kr # krs) = leaf_run maxk (leaf_step maxk kvs (fst kr) (snd kr)) krs"
  by (simp add: leaf_run_def)

lemma leaf_run_snoc: "leaf_run maxk kvs (krs @ [kr]) = leaf_step maxk (leaf_run maxk kvs krs) (fst kr) (snd kr)"
  by (simp add: leaf_run_def)

lemma length_leaf_step: "length kvs \<le> maxk \<Longrightarrow> length (leaf_step maxk kvs k r) \<le> maxk"
  by (simp add: leaf_step_def)

lemma length_leaf_run_small:
  "length kvs + length krs \<le> maxk \<Longrightarrow> length (leaf_run maxk kvs krs) = length kvs + length krs"
proof (induction krs arbitrary: kvs)
  case Nil
  then show ?case by (simp add: leaf_run_def)
next
  case (Cons kr krs)
  then show ?case by (simp add: leaf_run_Cons leaf_step_def)
qed

lemma leaf_run_full:
  assumes "length krs = Suc maxk"
  shows "leaf_run maxk [] krs = []"
proof -
  from assms obtain xs x where k: "krs = xs @ [x]"
    by (metis length_Suc_conv_rev)
  then have "length xs = maxk" using assms by simp
  then have "length (leaf_run maxk [] xs) = maxk"
    using length_leaf_run_small [of "[]" xs maxk] by simp
  then show ?thesis
    by (simp add: k leaf_run_snoc leaf_step_def)
qed

lemma idx_ok_new: "idx_ok new_engine (new_BPlusTreeIndex name ty) []"
  by (simp add: idx_ok_def new_BPlusTreeIndex_def eng_ok_new page_of_new)
     (simp add: new_engine_def PAGE_LIMIT_def)

lemma insert_all_ok:
  assumes "idx_ok st idx kvs" and "max_keys idx = BTREE_ORDER - 1"
    and "length kvs \<le> BTREE_ORDER - 1"
    and "\<forall>kr \<in> set krs. has_type (key_type idx) (fst kr) \<and> snd kr < 2 ^ 64"
    and "next_page_id st + 2 * length krs < PAGE_LIMIT"
    and "key_type idx \<noteq> STRING"
  shows "\<exists>r st'. insert_all idx krs st = Some (Inr (idx\<lparr>root_page_id := r\<rparr>, st')) \<and>
           idx_ok st' (idx\<lparr>root_page_id := r\<rparr>) (leaf_run (BTREE_ORDER - 1) kvs krs)"
  using assms
proof (induction krs arbitrary: idx st kvs)
  case Nil
  have e: "idx\<lparr>root_page_id := root_page_id idx\<rparr> = idx" by simp
  have "insert_all idx [] st = Some (Inr (idx\<lparr>root_page_id := root_page_id idx\<rparr>, st)) \<and>
      idx_ok st (idx\<lparr>root_page_id := root_page_id idx\<rparr>) (leaf_run (BTREE_ORDER - 1) kvs [])"
    unfolding e using Nil.prems(1) by (simp add: leaf_run_def)
  then show ?case by blast
next
  case (Cons kr krs)
  have fit: "leaf_size (key_type idx) (Suc (length kvs)) \<le> PAGE_SIZE"
    using Cons.prems(3,6) by (intro fits_leaf) (simp_all add: can_hold_def)
  have "next_page_id st + 1 < PAGE_LIMIT" using Cons.prems(5) by simp
  moreover have "has_type (key_type idx) (fst kr)" "snd kr < 2 ^ 64"
    using Cons.prems(4) by simp_all
  moreover have "length kvs \<le> max_keys idx" using Cons.prems(2,3) by simp
  ultimately obtain r st1
    where i: "insert_idx idx (fst kr) (snd kr) st = Some (Inr (idx\<lparr>root_page_id := r\<rparr>, st1))"
      and inv1: "idx_ok st1 (idx\<lparr>root_page_id := r\<rparr>) (leaf_step (max_keys idx) kvs (fst kr) (snd kr))"
      and of1: "only_file (index_name idx) 2 st st1"
    using insert_idx_step [OF Cons.prems(1) _ _ _ Cons.prems(2) _ fit, of "fst kr" "snd kr"] by blast
  define idx1 where "idx1 = idx\<lparr>root_page_id := r\<rparr>"
  define kvs1 where "kvs1 = leaf_step (BTREE_ORDER - 1) kvs (fst kr) (snd kr)"
  have "\<exists>r' st'. insert_all idx1 krs st1 = Some (Inr (idx1\<lparr>root_page_id := r'\<rparr>, st')) \<and>
           idx_ok st' (idx1\<lparr>root_page_id := r'\<rparr>) (leaf_run (BTREE_ORDER - 1) kvs1 krs)"
  proof (rule Cons.IH)
    show "idx_ok st1 idx1 kvs1" using inv1 by (simp add: idx1_def kvs1_def Cons.prems(2))
    show "max_keys idx1 = BTREE_ORDER - 1" using Cons.prems(2) by (simp add: idx1_def)
    show "length kvs1 \<le> BTREE_ORDER - 1"
      unfolding kvs1_def by (rule length_leaf_step [OF Cons.prems(3)])
    show "\<forall>kr \<in> set krs. has_type (key_type idx1) (fst kr) \<and> snd kr < 2 ^ 64"
      using Cons.prems(4) by (simp add: idx1_def)
    show "next_page_id st1 + 2 * length krs < PAGE_LIMIT"
      using Cons.prems(5) of1 by (simp add: only_file_def)
    show "key_type idx1 \<noteq> STRING" using Cons.prems(6) by (simp add: idx1_def)
  qed
  then show ?case
    using i by (simp add: idx1_def kvs1_def leaf_run_Cons)
qed

lemma search_after_ok:
  assumes "ty \<noteq> STRING" and "length krs < 2 ^ 50"
    and "\<forall>kr \<in> set krs. has_type ty (fst kr) \<and> snd kr < 2 ^ 64"
  shows "search_after name ty krs key =
           Some (Inr (map snd (filter (\<lambda>kr. value_eq (fst kr) key)
                                (leaf_run (BTREE_ORDER - 1) [] krs))))"
proof -
  define idx0 where "idx0 = new_BPlusTreeIndex name ty"
  have k: "key_type idx0 = ty" "max_keys idx0 = BTREE_ORDER - 1"
    by (simp_all add: idx0_def new_BPlusTreeIndex_def)
  have b: "next_page_id new_engine + 2 * length krs < PAGE_LIMIT"
    using assms(2) by (simp add: new_engine_def PAGE_LIMIT_def)
  obtain r st where a: "insert_all idx0 krs new_engine = Some (Inr (idx0\<lparr>root_page_id := r\<rparr>, st))"
    and inv: "idx_ok st (idx0\<lparr>root_page_id := r\<rparr>) (leaf_run (BTREE_ORDER - 1) [] krs)"
    using insert_all_ok [OF idx_ok_new [of name ty, folded idx0_def] k(2) _ _ b] assms(1,3)
    by (auto simp: k)
  obtain st' where "search (idx0\<lparr>root_page_id := r\<rparr>) key st =
      Some (Inr (map snd (filter (\<lambda>kr. value_eq (fst kr) key) (leaf_run (BTREE_ORDER - 1) [] krs)), st'))"
    using search_root_leaf [OF inv, of key] by blast
  then show ?thesis
    unfolding search_after_def idx0_def [symmetric] a by simp
qed

text \<open>
  C4, what the code does. After 128 inserts of keys of the declared type into a new index
  that is not on strings, the 128th of which splits the root, \<^verbatim>\<open>search\<close> completes and
  returns no record id, whatever the key: the root page id names a page that was never
  written and reads as an empty leaf, and no inserted key is reached.
\<close>

theorem root_split_loses_every_key:
  assumes "ty \<noteq> STRING" and "length krs = BTREE_ORDER"
    and "\<forall>kr \<in> set krs. has_type ty (fst kr) \<and> snd kr < 2 ^ 64"
  shows "search_after name ty krs key = Some (Inr [])"
proof -
  have "length krs < 2 ^ 50" using assms(2) by (simp add: BTREE_ORDER_def)
  moreover have "leaf_run (BTREE_ORDER - 1) [] krs = []"
    by (rule leaf_run_full) (simp add: assms(2) BTREE_ORDER_def)
  ultimately show ?thesis
    using search_after_ok [OF assms(1) _ assms(3), of name key] by simp
qed

theorem root_split_loses_every_key_witness:
  "search_after ''i'' INT32 (map (\<lambda>i. (VInt32 (of_nat i), i)) [0 ..< BTREE_ORDER]) (VInt32 0)
     = Some (Inr [])"
proof -
  have "i < 2 ^ 64" if "i < BTREE_ORDER" for i :: nat
    using that by (simp add: BTREE_ORDER_def)
  then have "\<forall>kr \<in> set (map (\<lambda>i. (VInt32 (of_nat i), i)) [0 ..< BTREE_ORDER]).
      has_type INT32 (fst kr) \<and> snd kr < 2 ^ 64"
    by (simp add: has_type_def)
  moreover have "length (map (\<lambda>i. (VInt32 (of_nat i), i)) [0 ..< BTREE_ORDER]) = BTREE_ORDER"
    by simp
  ultimately show ?thesis
    using root_split_loses_every_key
      [of INT32 "map (\<lambda>i. (VInt32 (of_nat i), i)) [0 ..< BTREE_ORDER]" "''i''" "VInt32 0"]
    by simp
qed

section \<open>The order of the keys in the root leaf\<close>

text \<open>
  On values of one type that are not NaN, \<^verbatim>\<open>operator<\<close> and \<^verbatim>\<open>operator==\<close> are the order and
  the equality of a key in a linear order.
\<close>

fun not_nan :: "Value \<Rightarrow> bool" where
  "not_nan (VFloat a) = (\<not> fp_is_nan 32 23 (unat a))"
| "not_nan (VDouble a) = (\<not> fp_is_nan 64 52 (unat a))"
| "not_nan _ = True"

fun vkey :: "Value \<Rightarrow> int \<times> string" where
  "vkey (VInt32 a) = (sint a, [])"
| "vkey (VInt64 a) = (sint a, [])"
| "vkey (VFloat a) = (fp_key 32 (unat a), [])"
| "vkey (VDouble a) = (fp_key 64 (unat a), [])"
| "vkey (VString s) = (0, s)"
| "vkey (VBool b) = (if b then 1 else 0, [])"

lemma value_less_vkey:
  assumes "has_type ty a" and "has_type ty b" and "not_nan a" and "not_nan b"
  shows "value_less a b \<longleftrightarrow> vkey a < vkey b"
  using assms
  by (cases a; cases b) (auto simp: has_type_def fp_less_def less_prod_def)

lemma value_eq_vkey:
  assumes "has_type ty a" and "has_type ty b" and "not_nan a" and "not_nan b"
  shows "value_eq a b \<longleftrightarrow> vkey a = vkey b"
  using assms
  by (cases a; cases b) (auto simp: has_type_def fp_eq_def signed_word_eqI)

lemma compareValues_vkey:
  assumes "has_type ty a" and "has_type ty b" and "not_nan a" and "not_nan b"
  shows "compareValues a b < 0 \<longleftrightarrow> vkey a < vkey b"
    and "compareValues a b > 0 \<longleftrightarrow> vkey b < vkey a"
    and "compareValues a b \<ge> 0 \<longleftrightarrow> vkey b \<le> vkey a"
  using value_less_vkey [OF assms] value_eq_vkey [OF assms]
  by (auto simp: compareValues_def)

lemma less_then_not_eq: "value_less a k \<Longrightarrow> value_eq k v \<Longrightarrow> \<not> value_eq a v"
  by (cases a; cases k; cases v) (auto simp: fp_less_def fp_eq_def)

text \<open>
  The pairs of the leaf are kept in the order of \<open>ekey\<close>: ascending keys, and among equal
  keys descending record ids, as every insert goes in front of the keys equal to its own.
\<close>

definition ekey :: "Value \<times> RecordId \<Rightarrow> (int \<times> string) \<times> int" where
  "ekey kr = (vkey (fst kr), - int (snd kr))"

definition sorted_leaf :: "(Value \<times> RecordId) list \<Rightarrow> bool" where
  "sorted_leaf kvs \<longleftrightarrow> sorted_wrt (\<lambda>x y. ekey x < ekey y) kvs"

lemma take_lower_bound:
  "take (lower_bound (map fst kvs) key) kvs = takeWhile (\<lambda>kr. compareValues (fst kr) key < 0) kvs"
proof -
  have "length (takeWhile (\<lambda>a. compareValues a key < 0) (map fst kvs)) =
        length (takeWhile (\<lambda>kr. compareValues (fst kr) key < 0) kvs)"
    by (simp add: takeWhile_map comp_def)
  then show ?thesis
    by (simp add: lower_bound_def takeWhile_eq_take [symmetric])
qed

lemma drop_lower_bound:
  "drop (lower_bound (map fst kvs) key) kvs = dropWhile (\<lambda>kr. compareValues (fst kr) key < 0) kvs"
proof -
  have "length (takeWhile (\<lambda>a. compareValues a key < 0) (map fst kvs)) =
        length (takeWhile (\<lambda>kr. compareValues (fst kr) key < 0) kvs)"
    by (simp add: takeWhile_map comp_def)
  then show ?thesis
    by (simp add: lower_bound_def dropWhile_eq_drop [symmetric])
qed

lemma leaf_insert_split:
  "leaf_insert kvs key rid =
     takeWhile (\<lambda>kr. compareValues (fst kr) key < 0) kvs @ (stored key, rid) #
     dropWhile (\<lambda>kr. compareValues (fst kr) key < 0) kvs"
  by (simp add: leaf_insert_def insert_at_def take_lower_bound drop_lower_bound)

lemma set_leaf_after:
  "length vs \<le> maxk \<Longrightarrow>
   set (leaf_after maxk vs) = (\<lambda>r. (stored (vs ! r), r)) ` {..< length vs}"
proof (induction vs rule: rev_induct)
  case Nil
  then show ?case by simp
next
  case (snoc v vs)
  have l: "length (leaf_after maxk vs) < maxk"
    using snoc.prems leaf_after_small [of vs maxk] by simp
  have ih: "set (leaf_after maxk vs) = (\<lambda>r. (stored (vs ! r), r)) ` {..< length vs}"
    using snoc by simp
  have c: "(\<lambda>r. (stored ((vs @ [v]) ! r), r)) ` {..< length vs} =
           (\<lambda>r. (stored (vs ! r), r)) ` {..< length vs}"
    by (rule image_cong) (simp_all add: nth_append)
  have "set (leaf_after maxk (vs @ [v])) = insert (stored v, length vs) (set (leaf_after maxk vs))"
    using l by (simp add: leaf_after_snoc leaf_step_def leaf_insert_def set_insert_at)
  also have "\<dots> = (\<lambda>r. (stored ((vs @ [v]) ! r), r)) ` {..< length (vs @ [v])}"
    by (simp add: ih lessThan_Suc c)
  finally show ?case .
qed

lemma filter_leaf_insert:
  assumes "stored k = k"
  shows "filter (\<lambda>kr. value_eq (fst kr) v) (leaf_insert kvs k r) =
         (if value_eq k v then [(k, r)] else []) @ filter (\<lambda>kr. value_eq (fst kr) v) kvs"
proof -
  define Q where "Q = (\<lambda>kr :: Value \<times> RecordId. compareValues (fst kr) k < 0)"
  have split: "filter (\<lambda>kr. value_eq (fst kr) v) kvs =
      filter (\<lambda>kr. value_eq (fst kr) v) (takeWhile Q kvs) @
      filter (\<lambda>kr. value_eq (fst kr) v) (dropWhile Q kvs)"
    by (metis filter_append takeWhile_dropWhile_id)
  have front: "filter (\<lambda>kr. value_eq (fst kr) v) (takeWhile Q kvs) = []" if "value_eq k v"
  proof -
    have "\<not> value_eq (fst x) v" if "x \<in> set (takeWhile Q kvs)" for x
    proof -
      have "Q x" using that by (auto dest: set_takeWhileD)
      then have "value_less (fst x) k"
        by (simp add: Q_def compareValues_def split: if_splits)
      then show ?thesis using \<open>value_eq k v\<close> by (rule less_then_not_eq)
    qed
    then show ?thesis by (simp add: filter_empty_conv)
  qed
  show ?thesis
    using front by (simp add: leaf_insert_split Q_def [symmetric] assms split)
qed

lemma find_in_leaf_after:
  assumes "length vs \<le> maxk" and "\<forall>x \<in> set vs. stored x = x"
  shows "map snd (filter (\<lambda>kr. value_eq (fst kr) v) (leaf_after maxk vs)) =
         filter (\<lambda>r. value_eq (vs ! r) v) (rev [0 ..< length vs])"
  using assms
proof (induction vs rule: rev_induct)
  case Nil
  then show ?case by simp
next
  case (snoc x vs)
  have l: "length (leaf_after maxk vs) < maxk"
    using snoc.prems leaf_after_small [of vs maxk] by simp
  have s: "stored x = x" using snoc.prems by simp
  have ih: "map snd (filter (\<lambda>kr. value_eq (fst kr) v) (leaf_after maxk vs)) =
         filter (\<lambda>r. value_eq (vs ! r) v) (rev [0 ..< length vs])"
    using snoc by simp
  have c: "filter (\<lambda>r. value_eq ((vs @ [x]) ! r) v) (rev [0 ..< length vs]) =
           filter (\<lambda>r. value_eq (vs ! r) v) (rev [0 ..< length vs])"
    by (rule filter_cong) (simp_all add: nth_append)
  show ?case
    using l by (simp add: leaf_after_snoc leaf_step_def filter_leaf_insert [OF s] ih c)
qed

lemma sorted_leaf_insert:
  assumes srt: "sorted_leaf kvs"
    and old: "\<forall>kr \<in> set kvs. has_type ty (fst kr) \<and> not_nan (fst kr) \<and> snd kr < r"
    and new: "has_type ty k" "not_nan k" "stored k = k"
  shows "sorted_leaf (leaf_insert kvs k r)"
proof -
  define Q where "Q = (\<lambda>kr :: Value \<times> RecordId. compareValues (fst kr) k < 0)"
  define tw where "tw = takeWhile Q kvs"
  define dw where "dw = dropWhile Q kvs"
  have id: "kvs = tw @ dw" by (simp add: tw_def dw_def)
  have s: "sorted_wrt (\<lambda>x y. ekey x < ekey y) (tw @ dw)"
    using srt by (simp add: sorted_leaf_def id [symmetric])
  have q: "Q x \<longleftrightarrow> vkey (fst x) < vkey k" if "x \<in> set kvs" for x
    using compareValues_vkey(1) [of ty "fst x" k] old new that by (simp add: Q_def)
  have before: "ekey x < ekey (k, r)" if "x \<in> set tw" for x
  proof -
    have "Q x" using that unfolding tw_def by (auto dest: set_takeWhileD)
    moreover have "x \<in> set kvs" using that by (simp add: id)
    ultimately show ?thesis using q by (simp add: ekey_def)
  qed
  have after: "ekey (k, r) < ekey y" if "y \<in> set dw" for y
  proof -
    from that obtain y0 rest where d: "dw = y0 # rest" by (cases dw) auto
    have "\<not> Q y0" using d hd_dropWhile [of Q kvs] by (simp add: dw_def)
    moreover have "y0 \<in> set kvs" by (simp add: id d)
    ultimately have k0: "vkey k \<le> vkey (fst y0)" using q by simp
    have "vkey (fst y0) \<le> vkey (fst y)"
    proof (cases "y = y0")
      case False
      then have "y \<in> set rest" using that d by simp
      then have "ekey y0 < ekey y" using s by (simp add: d sorted_wrt_append)
      then show ?thesis by (auto simp: ekey_def)
    qed simp
    then have "vkey k \<le> vkey (fst y)" using k0 by simp
    moreover have "snd y < r" using old that by (simp add: id)
    ultimately show ?thesis by (auto simp: ekey_def)
  qed
  have "sorted_wrt (\<lambda>x y. ekey x < ekey y) (tw @ (k, r) # dw)"
    using s before after by (auto simp: sorted_wrt_append)
  then show ?thesis
    by (simp add: sorted_leaf_def leaf_insert_split new(3) Q_def [symmetric] tw_def dw_def)
qed

lemma sorted_leaf_after:
  assumes "length vs \<le> maxk"
    and "\<forall>x \<in> set vs. has_type ty x \<and> not_nan x \<and> stored x = x"
  shows "sorted_leaf (leaf_after maxk vs)"
  using assms
proof (induction vs rule: rev_induct)
  case Nil
  then show ?case by (simp add: sorted_leaf_def)
next
  case (snoc x vs)
  have l: "length (leaf_after maxk vs) < maxk"
    using snoc.prems leaf_after_small [of vs maxk] by simp
  have le: "length vs \<le> maxk" using snoc.prems by simp
  have "sorted_leaf (leaf_insert (leaf_after maxk vs) x (length vs))"
  proof (rule sorted_leaf_insert [where ty = ty])
    show "sorted_leaf (leaf_after maxk vs)" using snoc by simp
    show "\<forall>kr \<in> set (leaf_after maxk vs). has_type ty (fst kr) \<and> not_nan (fst kr) \<and> snd kr < length vs"
      using snoc.prems(2) by (auto simp: set_leaf_after [OF le])
    show "has_type ty x" "not_nan x" "stored x = x" using snoc.prems(2) by simp_all
  qed
  then show ?case
    using l by (simp add: leaf_after_snoc leaf_step_def)
qed

lemma range_scan_sorted:
  assumes "sorted_leaf kvs" and "\<forall>kr \<in> set kvs. has_type ty (fst kr) \<and> not_nan (fst kr)"
    and "has_type ty lo" "not_nan lo" "has_type ty hi" "not_nan hi"
  shows "range_scan lo hi kvs =
         map snd (filter (\<lambda>kr. vkey lo \<le> vkey (fst kr) \<and> vkey (fst kr) \<le> vkey hi) kvs)"
  using assms(1,2)
proof (induction kvs)
  case Nil
  then show ?case by simp
next
  case (Cons kr kvs)
  have t: "has_type ty (fst kr)" "not_nan (fst kr)" using Cons.prems(2) by simp_all
  have s: "sorted_leaf kvs" using Cons.prems(1) by (simp add: sorted_leaf_def)
  have ih: "range_scan lo hi kvs =
         map snd (filter (\<lambda>kr. vkey lo \<le> vkey (fst kr) \<and> vkey (fst kr) \<le> vkey hi) kvs)"
    using Cons.IH [OF s] Cons.prems(2) by simp
  have later: "vkey (fst kr) \<le> vkey (fst y)" if "y \<in> set kvs" for y
  proof -
    have "ekey kr < ekey y" using Cons.prems(1) that by (simp add: sorted_leaf_def)
    then show ?thesis by (auto simp: ekey_def)
  qed
  show ?case
  proof (cases "compareValues (fst kr) hi > 0")
    case True
    then have h: "vkey hi < vkey (fst kr)"
      using compareValues_vkey(2) [OF t(1) assms(5) t(2) assms(6)] by simp
    have "\<not> (vkey lo \<le> vkey (fst y) \<and> vkey (fst y) \<le> vkey hi)" if "y \<in> set kvs" for y
      using later [OF that] h by auto
    then have "filter (\<lambda>kr. vkey lo \<le> vkey (fst kr) \<and> vkey (fst kr) \<le> vkey hi) kvs = []"
      by (simp add: filter_empty_conv)
    then show ?thesis using True h by (auto simp: not_le)
  next
    case False
    then have h: "vkey (fst kr) \<le> vkey hi"
      using compareValues_vkey(2) [OF t(1) assms(5) t(2) assms(6)] by simp
    have lo: "compareValues (fst kr) lo \<ge> 0 \<longleftrightarrow> vkey lo \<le> vkey (fst kr)"
      by (rule compareValues_vkey(3) [OF t(1) assms(3) t(2) assms(4)])
    show ?thesis
      using False h by (simp add: ih lo)
  qed
qed

section \<open>Searching a column\<close>

text \<open>
  The programs that make a column on a new engine, append the values \<open>vs\<close> in order and
  then call \<^verbatim>\<open>findRecords\<close>, or \<^verbatim>\<open>findRecordsInRange\<close>, once.
\<close>

definition find_after ::
  "string \<Rightarrow> DataType \<Rightarrow> Value list \<Rightarrow> Value \<Rightarrow> (error + RecordId list) option" where
  "find_after name ty vs v =
     (case append_all (new_DiskBasedColumn name ty) vs new_engine of
        None \<Rightarrow> None
      | Some (Inl e) \<Rightarrow> Some (Inl e)
      | Some (Inr cs) \<Rightarrow>
          (case findRecords (fst cs) v (snd cs) of
             None \<Rightarrow> None
           | Some (Inl e) \<Rightarrow> Some (Inl e)
           | Some (Inr fr) \<Rightarrow> Some (Inr (fst fr))))"

definition range_after ::
  "string \<Rightarrow> DataType \<Rightarrow> Value list \<Rightarrow> Value \<Rightarrow> Value \<Rightarrow> (error + RecordId list) option" where
  "range_after name ty vs lo hi =
     (case append_all (new_DiskBasedColumn name ty) vs new_engine of
        None \<Rightarrow> None
      | Some (Inl e) \<Rightarrow> Some (Inl e)
      | Some (Inr cs) \<Rightarrow>
          (case findRecordsInRange (fst cs) lo hi (snd cs) of
             None \<Rightarrow> None
           | Some (Inl e) \<Rightarrow> Some (Inl e)
           | Some (Inr fr) \<Rightarrow> Some (Inr (fst fr))))"

lemma find_after_ok:
  assumes "\<forall>v \<in> set vs. has_type ty v" and "length vs < 2 ^ 50" and "can_hold ty (length vs)"
  shows "find_after name ty vs v =
           Some (Inr (map snd (filter (\<lambda>kr. value_eq (fst kr) v) (leaf_after (BTREE_ORDER - 1) vs))))"
proof -
  obtain col st where a: "append_all (new_DiskBasedColumn name ty) vs new_engine = Some (Inr (col, st))"
    and c: "col_ok st col vs"
    using fresh_column_ok [OF assms] by blast
  obtain st' where "findRecords col v st =
      Some (Inr (map snd (filter (\<lambda>kr. value_eq (fst kr) v) (leaf_after (BTREE_ORDER - 1) vs)), st'))"
    using findRecords_ok [OF c, of v] by blast
  then show ?thesis
    unfolding find_after_def a by simp
qed

lemma range_after_ok:
  assumes "\<forall>v \<in> set vs. has_type ty v" and "length vs < 2 ^ 50" and "can_hold ty (length vs)"
  shows "range_after name ty vs lo hi =
           Some (Inr (range_scan lo hi (leaf_after (BTREE_ORDER - 1) vs)))"
proof -
  obtain col st where a: "append_all (new_DiskBasedColumn name ty) vs new_engine = Some (Inr (col, st))"
    and c: "col_ok st col vs"
    using fresh_column_ok [OF assms] by blast
  obtain st' where "findRecordsInRange col lo hi st =
      Some (Inr (range_scan lo hi (leaf_after (BTREE_ORDER - 1) vs), st'))"
    using findRecordsInRange_ok [OF c, of lo hi] by blast
  then show ?thesis
    unfolding range_after_def a by simp
qed

lemma small_column: "n < BTREE_ORDER \<Longrightarrow> n < 2 ^ 50 \<and> n \<le> BTREE_ORDER - 1"
  by (simp add: BTREE_ORDER_def)

text \<open>
  C1, as the code has it. Values of the declared type that are stored as they are (no
  string longer than 255 bytes or with a NUL) and are not NaN, fewer than 128 of them, so
  that the root leaf never splits, and at most fifteen if they are strings: after they
  were appended, \<^verbatim>\<open>findRecords(v)\<close> returns the record ids of the values equal to \<open>v\<close>, each
  once, the latest first.
\<close>

theorem find_returns_the_matches_latest_first:
  assumes "\<forall>x \<in> set vs. has_type ty x \<and> not_nan x \<and> stored x = x"
    and "length vs < BTREE_ORDER" and "can_hold ty (length vs)"
  shows "find_after name ty vs v =
           Some (Inr (filter (\<lambda>r. value_eq (vs ! r) v) (rev [0 ..< length vs])))"
proof -
  note n = small_column [OF assms(2)]
  have "\<forall>x \<in> set vs. has_type ty x" "\<forall>x \<in> set vs. stored x = x"
    using assms(1) by simp_all
  then show ?thesis
    using find_after_ok [of vs ty name v] find_in_leaf_after [of vs "BTREE_ORDER - 1" v] n assms(3)
    by simp
qed

theorem find_returns_the_matches_latest_first_witness:
  "find_after ''c'' INT32 [VInt32 5, VInt32 3, VInt32 5] (VInt32 5) = Some (Inr [2, 0])"
  using find_returns_the_matches_latest_first [of "[VInt32 5, VInt32 3, VInt32 5]" INT32 "''c''" "VInt32 5"]
  by (simp add: has_type_def can_hold_def BTREE_ORDER_def)

text \<open>
  C1, the failing input: the value 5 appended twice to an \<open>INT32\<close> column.
  \<^verbatim>\<open>findRecords(5)\<close> returns record 1 before record 0.
\<close>

theorem find_returns_descending_record_ids:
  "find_after ''c'' INT32 [VInt32 5, VInt32 5] (VInt32 5) = Some (Inr [1, 0])"
proof -
  have "leaf_after (BTREE_ORDER - 1) [VInt32 5, VInt32 5] = [(VInt32 5, 1), (VInt32 5, 0)]"
    by (simp add: leaf_after_def leaf_step_def leaf_insert_def lower_bound_def insert_at_def
        compareValues_def BTREE_ORDER_def)
  then show ?thesis
    using find_after_ok [of "[VInt32 5, VInt32 5]" INT32 "''c''" "VInt32 5"]
    by (simp add: has_type_def can_hold_def)
qed

lemma distinct_rids_leaf_after:
  assumes "length vs \<le> maxk"
  shows "distinct (map snd (leaf_after maxk vs))"
proof -
  have "set (map snd (leaf_after maxk vs)) = {..< length vs}"
    by (simp add: set_leaf_after [OF assms] image_image)
  then have "card (set (map snd (leaf_after maxk vs))) = length (map snd (leaf_after maxk vs))"
    by (simp add: leaf_after_small [OF assms])
  then show ?thesis by (rule card_distinct)
qed

lemma range_in_leaf_after:
  assumes vs: "\<forall>x \<in> set vs. has_type ty x \<and> not_nan x \<and> stored x = x"
    and lo: "has_type ty lo" "not_nan lo" and hi: "has_type ty hi" "not_nan hi"
    and n: "length vs \<le> maxk"
  shows "set (range_scan lo hi (leaf_after maxk vs)) =
           {r. r < length vs \<and> \<not> value_less (vs ! r) lo \<and> \<not> value_less hi (vs ! r)}"
    and "distinct (range_scan lo hi (leaf_after maxk vs))"
    and "sorted_wrt (\<lambda>r s. value_less (vs ! r) (vs ! s) \<or> (value_eq (vs ! r) (vs ! s) \<and> s < r))
           (range_scan lo hi (leaf_after maxk vs))"
proof -
  define L where "L = leaf_after maxk vs"
  define P where "P = (\<lambda>kr :: Value \<times> RecordId. vkey lo \<le> vkey (fst kr) \<and> vkey (fst kr) \<le> vkey hi)"
  have el: "vs ! r \<in> set vs" if "r < length vs" for r
    using that by simp
  have sv: "stored (vs ! r) = vs ! r" if "r < length vs" for r
    using vs el [OF that] by simp
  have "(\<lambda>r. (stored (vs ! r), r)) ` {..< length vs} = (\<lambda>r. (vs ! r, r)) ` {..< length vs}"
    by (rule image_cong) (simp_all add: sv)
  then have setL: "set L = (\<lambda>r. (vs ! r, r)) ` {..< length vs}"
    unfolding L_def by (simp add: set_leaf_after [OF n])
  have inL: "\<exists>r < length vs. x = (vs ! r, r)" if "x \<in> set L" for x
    using that setL by auto
  have typed: "\<forall>kr \<in> set L. has_type ty (fst kr) \<and> not_nan (fst kr)"
  proof
    fix kr assume "kr \<in> set L"
    then obtain r where "r < length vs" "kr = (vs ! r, r)" using inL by blast
    then show "has_type ty (fst kr) \<and> not_nan (fst kr)" using vs el by simp
  qed
  have srt: "sorted_leaf L"
    unfolding L_def by (rule sorted_leaf_after [OF n vs])
  have rs: "range_scan lo hi L = map snd (filter P L)"
    unfolding P_def by (rule range_scan_sorted [OF srt typed lo hi])
  have Pv: "P (vs ! r, r) \<longleftrightarrow> \<not> value_less (vs ! r) lo \<and> \<not> value_less hi (vs ! r)"
    if "r < length vs" for r
  proof -
    have t: "has_type ty (vs ! r)" "not_nan (vs ! r)" using vs el [OF that] by simp_all
    show ?thesis
      using value_less_vkey [OF t(1) lo(1) t(2) lo(2)] value_less_vkey [OF hi(1) t(1) hi(2) t(2)]
      by (auto simp: P_def not_less)
  qed
  have "set (map snd (filter P L)) = {r. r < length vs \<and> P (vs ! r, r)}"
    by (auto simp: setL image_iff)
  then show "set (range_scan lo hi (leaf_after maxk vs)) =
           {r. r < length vs \<and> \<not> value_less (vs ! r) lo \<and> \<not> value_less hi (vs ! r)}"
    using Pv by (auto simp: rs L_def [symmetric])
  have "distinct (map snd L)"
    unfolding L_def by (rule distinct_rids_leaf_after [OF n])
  then show "distinct (range_scan lo hi (leaf_after maxk vs))"
    by (simp add: rs L_def [symmetric] distinct_map_filter)
  have "sorted_wrt (\<lambda>x y. ekey x < ekey y) (filter P L)"
    using srt by (simp add: sorted_leaf_def sorted_wrt_filter)
  moreover have "value_less (vs ! snd x) (vs ! snd y) \<or>
        (value_eq (vs ! snd x) (vs ! snd y) \<and> snd y < snd x)"
    if mx: "x \<in> set (filter P L)" and my: "y \<in> set (filter P L)" and lt: "ekey x < ekey y" for x y
  proof -
    obtain r where r: "r < length vs" "x = (vs ! r, r)" using mx inL [of x] by auto
    obtain s where s: "s < length vs" "y = (vs ! s, s)" using my inL [of y] by auto
    have tr: "has_type ty (vs ! r)" "not_nan (vs ! r)" using vs el [OF r(1)] by simp_all
    have ts: "has_type ty (vs ! s)" "not_nan (vs ! s)" using vs el [OF s(1)] by simp_all
    show ?thesis
      using lt value_less_vkey [OF tr(1) ts(1) tr(2) ts(2)]
        value_eq_vkey [OF tr(1) ts(1) tr(2) ts(2)]
      by (auto simp: r s ekey_def)
  qed
  ultimately have "sorted_wrt (\<lambda>x y. value_less (vs ! snd x) (vs ! snd y) \<or>
        (value_eq (vs ! snd x) (vs ! snd y) \<and> snd y < snd x)) (filter P L)"
    by (rule sorted_wrt_mono_rel [rotated])
  then show "sorted_wrt (\<lambda>r s. value_less (vs ! r) (vs ! s) \<or> (value_eq (vs ! r) (vs ! s) \<and> s < r))
           (range_scan lo hi (leaf_after maxk vs))"
    by (simp add: rs L_def [symmetric] sorted_wrt_map)
qed

text \<open>
  C3, as the code has it. Under the conditions of C1, with bounds of the declared type that
  are not NaN: \<^verbatim>\<open>findRecordsInRange(lo, hi)\<close> returns the record ids of the values that are
  not less than \<open>lo\<close> and not greater than \<open>hi\<close>, each once, a smaller value before a
  greater one and, of two equal values, the later appended first. The walk is the scan of
  the root leaf, which is the one leaf there is.
\<close>

theorem range_returns_keys_ascending_latest_first:
  assumes "\<forall>x \<in> set vs. has_type ty x \<and> not_nan x \<and> stored x = x"
    and "has_type ty lo \<and> not_nan lo" and "has_type ty hi \<and> not_nan hi"
    and "length vs < BTREE_ORDER" and "can_hold ty (length vs)"
  shows "\<exists>rs. range_after name ty vs lo hi = Some (Inr rs) \<and>
           set rs = {r. r < length vs \<and> \<not> value_less (vs ! r) lo \<and> \<not> value_less hi (vs ! r)} \<and>
           distinct rs \<and>
           sorted_wrt (\<lambda>r s. value_less (vs ! r) (vs ! s) \<or> (value_eq (vs ! r) (vs ! s) \<and> s < r)) rs"
proof -
  note n = small_column [OF assms(4)]
  have t: "\<forall>x \<in> set vs. has_type ty x" using assms(1) by simp
  have r: "range_after name ty vs lo hi =
      Some (Inr (range_scan lo hi (leaf_after (BTREE_ORDER - 1) vs)))"
    using range_after_ok [OF t _ assms(5)] n by simp
  have lo: "has_type ty lo" "not_nan lo" and hi: "has_type ty hi" "not_nan hi"
    using assms(2,3) by simp_all
  show ?thesis
    using r range_in_leaf_after [OF assms(1) lo hi, of "BTREE_ORDER - 1"] n by blast
qed

lemma range_of_three:
  "range_after ''c'' INT32 [VInt32 5, VInt32 3, VInt32 5] (VInt32 4) (VInt32 6) = Some (Inr [2, 0])"
proof -
  have "leaf_after (BTREE_ORDER - 1) [VInt32 5, VInt32 3, VInt32 5] =
      [(VInt32 3, 1), (VInt32 5, 2), (VInt32 5, 0)]"
    by (simp add: leaf_after_def leaf_step_def leaf_insert_def lower_bound_def insert_at_def
        compareValues_def BTREE_ORDER_def)
  then show ?thesis
    using range_after_ok [of "[VInt32 5, VInt32 3, VInt32 5]" INT32 "''c''" "VInt32 4" "VInt32 6"]
    by (simp add: has_type_def can_hold_def compareValues_def)
qed

theorem range_returns_keys_ascending_latest_first_witness:
  "range_after ''c'' INT32 [VInt32 5, VInt32 3, VInt32 5] (VInt32 4) (VInt32 6) = Some (Inr [2, 0]) \<and>
   set [2, 0] = {r. r < 3 \<and> \<not> value_less ([VInt32 5, VInt32 3, VInt32 5] ! r) (VInt32 4) \<and>
                    \<not> value_less (VInt32 6) ([VInt32 5, VInt32 3, VInt32 5] ! r)} \<and>
   distinct [2 :: nat, 0]"
  using range_returns_keys_ascending_latest_first
    [of "[VInt32 5, VInt32 3, VInt32 5]" INT32 "VInt32 4" "VInt32 6" "''c''"] range_of_three
  by (simp add: has_type_def can_hold_def BTREE_ORDER_def numeral_3_eq_3)

text \<open>
  C3, the failing input: the value 5 appended twice to an \<open>INT32\<close> column. The range
  \<open>[5, 5]\<close> returns record 1 before record 0.
\<close>

theorem range_returns_descending_record_ids:
  "range_after ''c'' INT32 [VInt32 5, VInt32 5] (VInt32 5) (VInt32 5) = Some (Inr [1, 0])"
proof -
  have "leaf_after (BTREE_ORDER - 1) [VInt32 5, VInt32 5] = [(VInt32 5, 1), (VInt32 5, 0)]"
    by (simp add: leaf_after_def leaf_step_def leaf_insert_def lower_bound_def insert_at_def
        compareValues_def BTREE_ORDER_def)
  then show ?thesis
    using range_after_ok [of "[VInt32 5, VInt32 5]" INT32 "''c''" "VInt32 5" "VInt32 5"]
    by (simp add: has_type_def can_hold_def compareValues_def)
qed

section \<open>Several columns on one engine\<close>





text \<open>
  The columns \<open>cols\<close>, under names that \<open>stem\<close> turns into file stems, hold the values \<open>H\<close>
  gives for their names; the files of a name without a column have not been written.
\<close>

definition cols_ok ::
  "(string \<Rightarrow> string) \<Rightarrow> engine \<Rightarrow> (string \<rightharpoonup> DiskBasedColumn) \<Rightarrow> (string \<Rightarrow> Value list) \<Rightarrow> bool" where
  "cols_ok stem st cols H \<longleftrightarrow>
     eng_ok st \<and> 0 < next_page_id st \<and> next_page_id st \<le> PAGE_LIMIT \<and>
     (\<forall>n col. cols n = Some col \<longrightarrow>
        col_ok st col (H n) \<and> data_file col = stem n @ ''.data'' \<and>
        index_name (column_index col) = stem n @ ''.idx'') \<and>
     (\<forall>n p. cols n = None \<and> p < PAGE_LIMIT \<longrightarrow>
        page_of st (stem n @ ''.data'') p = zero_bytes PAGE_SIZE \<and>
        page_of st (stem n @ ''.idx'') p = zero_bytes PAGE_SIZE)"


lemma cols_ok_new_engine: "cols_ok stem new_engine Map.empty H"
  by (simp add: cols_ok_def eng_ok_new page_of_new) (simp add: new_engine_def PAGE_LIMIT_def)










section \<open>A client of several columns\<close>


















section \<open>Reading back in a run of calls\<close>













section \<open>Page ids whose file offset wraps around\<close>




section \<open>Tables: record counts and the row map\<close>



lemma append_col_total:
  assumes "append_col col v st = Some (Inr ((rid, col'), st'))"
  shows "total_records col' = total_records col + 1 \<and> rid = total_records col \<and>
         column_type col' = column_type col"
proof -
  define w where "w = writeValueToPage (column_type col)
      (data (fst (fetchPage (buffer_manager st) (data_file col)
                   (total_records col div records_per_page col))))
      (total_records col mod records_per_page col) v"
  obtain d where w: "w = Inr d"
    using assms by (cases w) (simp_all add: append_col_def Let_def w_def [symmetric])
  define i where "i = insert_idx (column_index col) v (total_records col)
      (st\<lparr>buffer_manager :=
            modifyPage (snd (fetchPage (buffer_manager st) (data_file col)
                              (total_records col div records_per_page col)))
              (data_file col) (total_records col div records_per_page col)
              (\<lambda>page. page\<lparr>data := d, is_dirty := True\<rparr>)\<rparr>)"
  have e: "append_col col v st =
      Option.bind i
        (case_sum (\<lambda>e. Some (Inl (e, None)))
           (\<lambda>ins. Some (Inr ((total_records col,
                             col\<lparr>column_index := fst ins, total_records := Suc (total_records col)\<rparr>),
                            (snd ins)\<lparr>buffer_manager :=
                                        append_flush col (total_records col div records_per_page col)
                                          (buffer_manager (snd ins))\<rparr>))))"
    unfolding append_col_def Let_def w_def [symmetric] w i_def by simp
  obtain r where i: "i = Some r"
    using assms unfolding e by (cases i) simp_all
  show ?thesis
    using assms unfolding e i by (cases r) auto
qed









section \<open>Rows put into a table\<close>




lemma has_type_default [simp]: "has_type ty (default_value ty)"
  by (cases ty) (simp_all add: has_type_def)


text \<open>
  A table on its engine: the columns hold the values \<open>H\<close> gives for their names in files
  under the path of the table and have the types \<open>T\<close>, and \<open>column_order\<close> lists their
  names, each once.
\<close>

definition tbl_ok ::
  "engine \<Rightarrow> DiskBasedTable \<Rightarrow> (string \<Rightarrow> DataType) \<Rightarrow> (string \<Rightarrow> Value list) \<Rightarrow> bool" where
  "tbl_ok st t T H \<longleftrightarrow>
     cols_ok (\<lambda>n. table_path t @ ''/'' @ n) st (columns t) H \<and>
     (\<forall>n col. columns t n = Some col \<longrightarrow> column_type col = T n) \<and>
     distinct (column_order t) \<and> set (column_order t) = dom (columns t)"



lemma tbl_ok_new: "tbl_ok new_engine (new_DiskBasedTable name) T H"
  by (simp add: tbl_ok_def new_DiskBasedTable_def cols_ok_new_engine)

lemma tbl_ok_row_count [simp]: "tbl_ok st (t\<lparr>row_count := k\<rparr>) T H = tbl_ok st t T H"
  by (simp add: tbl_ok_def)





section \<open>Tables: what the operations leave\<close>

text \<open>A table with one \<open>INT32\<close> column \<open>a\<close> and no rows, and the first row put into it.\<close>

definition one_column_table :: DiskBasedTable where
  "one_column_table =
     (new_DiskBasedTable ''t'')
       \<lparr>columns := [''a'' \<mapsto> new_DiskBasedColumn ''t/a'' INT32], column_order := [''a'']\<rparr>"


lemma first_append:
  assumes "has_type ty v" and "can_hold ty 1"
  shows "\<exists>col st. append_col (new_DiskBasedColumn name ty) v new_engine = Some (Inr ((0, col), st)) \<and>
           col_ok st col [v]"
proof -
  have "next_page_id new_engine + 1 < PAGE_LIMIT"
    by (simp add: new_engine_def PAGE_LIMIT_def)
  moreover have "column_type (new_DiskBasedColumn name ty) = ty"
    by (simp add: new_DiskBasedColumn_def)
  ultimately show ?thesis
    using append_col_ok [OF col_ok_new_engine [of name ty], of v] assms
    by (auto simp: PAGE_LIMIT_def)
qed



lemma sum_col_empty: "total_records col = 0 \<Longrightarrow> sum_col fp col st = Inr (0, st)"
  by (simp add: sum_col_def)

















text \<open>
  C7. For whatever arithmetic of doubles \<open>fp\<close>: on an empty column \<open>average\<close> is 0.0 and so is
  \<open>sum\<close>, and neither touches the engine; on a column with records \<open>average\<close> fails where
  \<open>sum\<close> fails and is otherwise the quotient of the sum by the record count, converted to
  a double, in the state \<open>sum\<close> leaves.
\<close>

theorem average_is_sum_over_count:
  "(total_records col = 0 \<longrightarrow>
      average_col fp col st = Inr (0, st) \<and> sum_col fp col st = Inr (0, st)) \<and>
   (0 < total_records col \<longrightarrow>
      average_col fp col st =
        map_sum id (\<lambda>s. (d_div fp (fst s) (d_of_size fp (total_records col)), snd s))
          (sum_col fp col st))"
  by (simp add: average_col_def sum_col_empty split: sum.splits)

text \<open>An arithmetic to run the statement on: the operations of machine words.\<close>

definition word_ops :: fp_ops where
  "word_ops = \<lparr>d_add = (+), d_div = (div), d_of_int32 = scast, d_of_int64 = id,
               d_of_float = ucast, d_of_size = of_nat\<rparr>"

theorem average_is_sum_over_count_witness:
  "average_col word_ops (new_DiskBasedColumn ''c'' INT32) new_engine = Inr (0, new_engine) \<and>
   (\<exists>col st. append_col (new_DiskBasedColumn ''c'' INT32) (VInt32 7) new_engine
                = Some (Inr ((0, col), st)) \<and>
             total_records col = 1 \<and>
             average_col word_ops col st =
               map_sum id (\<lambda>s. (fst s div 1, snd s)) (sum_col word_ops col st))"
proof -
  obtain col st where a: "append_col (new_DiskBasedColumn ''c'' INT32) (VInt32 7) new_engine
      = Some (Inr ((0, col), st))"
    using first_append [of INT32 "VInt32 7" "''c''"] by (auto simp: has_type_def can_hold_def)
  have t: "total_records col = 1"
    using append_col_total [OF a] by (simp add: new_DiskBasedColumn_def)
  have "average_col word_ops col st =
      map_sum id (\<lambda>s. (fst s div 1, snd s)) (sum_col word_ops col st)"
    using average_is_sum_over_count [of col word_ops st] t by (simp add: word_ops_def)
  moreover have "average_col word_ops (new_DiskBasedColumn ''c'' INT32) new_engine = Inr (0, new_engine)"
    using average_is_sum_over_count [of "new_DiskBasedColumn ''c'' INT32" word_ops new_engine]
    by (simp add: new_DiskBasedColumn_def)
  ultimately show ?thesis using a t by blast
qed

text \<open>
  C8, as the code has it. \<open>indexedSelect\<close> and \<open>rangeSelect\<close> on a name that is no column of
  the table return the empty list of rows and leave the engine as it was: the miss is not
  told apart from a search that found nothing.
\<close>

theorem select_on_missing_column_is_empty:
  assumes "getColumn t index_column = None"
  shows "indexedSelect t index_column v selected st = Some (Inr ([], st)) \<and>
         rangeSelect t index_column lo hi selected st = Some (Inr ([], st))"
  using assms by (simp add: indexedSelect_def rangeSelect_def)

theorem select_on_missing_column_is_empty_witness:
  "getColumn one_column_table ''b'' = None \<and>
   indexedSelect one_column_table ''b'' (VInt32 7) [] new_engine = Some (Inr ([], new_engine)) \<and>
   rangeSelect one_column_table ''b'' (VInt32 0) (VInt32 9) [] new_engine = Some (Inr ([], new_engine))"
proof -
  have "getColumn one_column_table ''b'' = None"
    by (simp add: getColumn_def one_column_table_def)
  then show ?thesis
    using select_on_missing_column_is_empty [of one_column_table "''b''"] by simp
qed

text \<open>
  C8, the failing input: a table without columns and the column name \<open>missing\<close>. Both
  selects return normally, with no row.
\<close>

theorem select_on_missing_column_no_failure:
  "indexedSelect (new_DiskBasedTable ''t'') ''missing'' (VInt32 0) [] new_engine
     = Some (Inr ([], new_engine)) \<and>
   rangeSelect (new_DiskBasedTable ''t'') ''missing'' (VInt32 0) (VInt32 9) [] new_engine
     = Some (Inr ([], new_engine))"
  by (simp add: indexedSelect_def rangeSelect_def getColumn_def new_DiskBasedTable_def)



end
